theory Spec2Isabelle
  imports Main
begin

section \<open>Process coordination in \<open>convoy/util.py\<close>\<close>

text \<open>
  The theory embeds the subprocess helpers of \<open>convoy/util.py\<close>: the launchers
  \<open>subprocess_with_output\<close>, \<open>subprocess_nowait\<close>, \<open>subprocess_nowait_pipe_stdout\<close>
  and the three polling waits \<open>subprocess_wait_all\<close>, \<open>subprocess_wait_any\<close> and
  \<open>subprocess_wait_multi\<close>.
\<close>

subsection \<open>Errors\<close>

text \<open>
  Exceptions are values. \<open>ValueError\<close> carries the message of the source; the others are
  what the interpreter and the operating system may raise in the calls the helpers make.
\<close>

datatype exn = ValueError string | OSError string | KeyboardInterrupt

subsection \<open>The world of the waits\<close>

text \<open>
  A handle is the address of a \<open>subprocess.Popen\<close> object, and a handle collection is the
  address of a Python list of handles. The waits never modify a collection, they read its
  length and its elements.

  Time is counted in observations: every status query and every sleep advances \<open>now\<close> by
  one. The operating system's side of a child is \<open>os w h\<close>: \<open>Some (t, c)\<close> when the child
  has exited with status \<open>c\<close> for every observation from tick \<open>t\<close> on, \<open>None\<close> when it never
  exits. \<open>returncode w h\<close> is the attribute \<open>Popen.returncode\<close>, and \<open>trace w\<close> logs the
  status queries and sleeps in the order the program performs them.
\<close>

type_synonym handle = nat
type_synonym lref = nat

datatype event = Poll handle | Sleep

record world =
  now :: nat
  os :: "handle \<Rightarrow> (nat \<times> int) option"
  returncode :: "handle \<Rightarrow> int option"
  lists :: "lref \<Rightarrow> handle list"
  trace :: "event list"

text \<open>
  \<open>Popen.poll()\<close> of the standard library: it returns the attribute \<open>returncode\<close> when
  that is set; otherwise it asks the operating system, and when the child has exited it
  sets the attribute and returns it; otherwise it returns \<open>None\<close>.
\<close>

definition poll :: "world \<Rightarrow> handle \<Rightarrow> int option \<times> world" where
  "poll w h =
     (let w1 = w\<lparr>now := Suc (now w), trace := trace w @ [Poll h]\<rparr> in
      case returncode w h of
        Some c \<Rightarrow> (Some c, w1)
      | None \<Rightarrow>
          (case os w h of
             None \<Rightarrow> (None, w1)
           | Some (t, c) \<Rightarrow>
               if t \<le> now w
               then (Some c, w1\<lparr>returncode := (returncode w)(h := Some c)\<rparr>)
               else (None, w1)))"

text \<open>\<open>time.sleep(0.03)\<close>: time passes, nothing else changes.\<close>

definition sleep :: "world \<Rightarrow> world" where
  "sleep w = w\<lparr>now := Suc (now w), trace := trace w @ [Sleep]\<rparr>"

text \<open>\<open>procs is None or len(procs) == 0\<close>, for an argument that is \<open>None\<close> or a list.\<close>

definition none_or_empty :: "world \<Rightarrow> lref option \<Rightarrow> bool" where
  "none_or_empty w procs =
     (case procs of None \<Rightarrow> True | Some r \<Rightarrow> length (lists w r) = 0)"

subsection \<open>\<open>subprocess_wait_all\<close>\<close>

text \<open>
  One polling sweep, the \<open>for\<close> loop of \<open>subprocess_wait_all\<close> over the indices that are
  left. \<open>and\<close> is short-circuit: a handle whose slot is filled is not queried.
\<close>

fun wait_all_sweep ::
  "handle list \<Rightarrow> nat list \<Rightarrow> world \<Rightarrow> int option list \<Rightarrow> world \<times> int option list" where
  "wait_all_sweep procs [] w rcodes = (w, rcodes)"
| "wait_all_sweep procs (i # js) w rcodes =
     (if rcodes ! i = None
      then (case poll w (procs ! i) of
              (r, w') \<Rightarrow>
                if r = Some 0
                then wait_all_sweep procs js w' (rcodes[i := returncode w' (procs ! i)])
                else wait_all_sweep procs js w' rcodes)
      else wait_all_sweep procs js w rcodes)"

text \<open>The \<open>while True\<close> loop: a sweep, the test of \<open>all(...)\<close>, a sleep.\<close>

partial_function (option) wait_all_loop ::
  "handle list \<Rightarrow> world \<Rightarrow> int option list \<Rightarrow> (int option list \<times> world) option" where
  "wait_all_loop procs w rcodes =
     (case wait_all_sweep procs [0..<length procs] w rcodes of
        (w', rcodes') \<Rightarrow>
          if list_all (\<lambda>x. x \<noteq> None) rcodes'
          then Some (rcodes', w')
          else wait_all_loop procs (sleep w') rcodes')"

declare wait_all_loop.simps [code]


text \<open>
  The result is \<open>None\<close> when the call never returns, and otherwise the exception raised or
  the list returned, with the world the call leaves.
\<close>

definition subprocess_wait_all ::
  "world \<Rightarrow> lref option \<Rightarrow> ((exn + int option list) \<times> world) option" where
  "subprocess_wait_all w procs =
     (if none_or_empty w procs then Some (Inl (ValueError ''procs is invalid''), w)
      else let ps = lists w (the procs) in
        map_option (\<lambda>(rcodes, w'). (Inr rcodes, w'))
          (wait_all_loop ps w (replicate (length ps) None)))"

subsection \<open>\<open>subprocess_wait_any\<close>\<close>

text \<open>
  The \<open>for\<close> loop of \<open>subprocess_wait_any\<close> over the indices that are left: it returns
  from the function at the first handle whose \<open>poll()\<close> is \<open>0\<close>, with the index and the
  attribute \<open>returncode\<close> read after the query.
\<close>

fun wait_any_sweep ::
  "handle list \<Rightarrow> nat list \<Rightarrow> world \<Rightarrow> (nat \<times> int option) option \<times> world" where
  "wait_any_sweep procs [] w = (None, w)"
| "wait_any_sweep procs (i # js) w =
     (case poll w (procs ! i) of
        (r, w') \<Rightarrow>
          if r = Some 0 then (Some (i, returncode w' (procs ! i)), w')
          else wait_any_sweep procs js w')"

partial_function (option) wait_any_loop ::
  "handle list \<Rightarrow> world \<Rightarrow> ((nat \<times> int option) \<times> world) option" where
  "wait_any_loop procs w =
     (case wait_any_sweep procs [0..<length procs] w of
        (Some res, w') \<Rightarrow> Some (res, w')
      | (None, w') \<Rightarrow> wait_any_loop procs (sleep w'))"

declare wait_any_loop.simps [code]

definition subprocess_wait_any ::
  "world \<Rightarrow> lref option \<Rightarrow> ((exn + nat \<times> int option) \<times> world) option" where
  "subprocess_wait_any w procs =
     (if none_or_empty w procs then Some (Inl (ValueError ''procs is invalid''), w)
      else map_option (\<lambda>(res, w'). (Inr res, w'))
             (wait_any_loop (lists w (the procs)) w))"

subsection \<open>\<open>subprocess_wait_multi\<close>\<close>

text \<open>
  One cycle of the \<open>while True\<close> loop of \<open>subprocess_wait_multi\<close>: the loop over
  \<open>procs1\<close> when that is a non-empty list, then the loop over \<open>procs2\<close> when that is one.
  Each is the loop of \<open>subprocess_wait_any\<close>, and the tuple returned starts with the
  collection the handle was found in. The test \<open>procs1 is not None and len(procs1) > 0\<close>
  is the negation of \<open>none_or_empty\<close>.
\<close>

definition wait_multi_sweep ::
  "lref option \<Rightarrow> lref option \<Rightarrow> world \<Rightarrow> (lref \<times> nat \<times> int option) option \<times> world" where
  "wait_multi_sweep procs1 procs2 w =
     (case (if \<not> none_or_empty w procs1
            then (let ps1 = lists w (the procs1) in
                  case wait_any_sweep ps1 [0..<length ps1] w of
                    (Some (i, rc), w') \<Rightarrow> (Some (the procs1, i, rc), w')
                  | (None, w') \<Rightarrow> (None, w'))
            else (None, w)) of
        (Some res, w1) \<Rightarrow> (Some res, w1)
      | (None, w1) \<Rightarrow>
          (if \<not> none_or_empty w1 procs2
           then (let ps2 = lists w1 (the procs2) in
                 case wait_any_sweep ps2 [0..<length ps2] w1 of
                   (Some (i, rc), w') \<Rightarrow> (Some (the procs2, i, rc), w')
                 | (None, w') \<Rightarrow> (None, w'))
           else (None, w1)))"

partial_function (option) wait_multi_loop ::
  "lref option \<Rightarrow> lref option \<Rightarrow> world \<Rightarrow> ((lref \<times> nat \<times> int option) \<times> world) option" where
  "wait_multi_loop procs1 procs2 w =
     (case wait_multi_sweep procs1 procs2 w of
        (Some res, w') \<Rightarrow> Some (res, w')
      | (None, w') \<Rightarrow> wait_multi_loop procs1 procs2 (sleep w'))"

declare wait_multi_loop.simps [code]

definition subprocess_wait_multi ::
  "world \<Rightarrow> lref option \<Rightarrow> lref option \<Rightarrow>
   ((exn + lref \<times> nat \<times> int option) \<times> world) option" where
  "subprocess_wait_multi w procs1 procs2 =
     (if none_or_empty w procs1 \<and> none_or_empty w procs2
      then Some (Inl (ValueError ''both procs1 and procs2 are invalid''), w)
      else map_option (\<lambda>(res, w'). (Inr res, w')) (wait_multi_loop procs1 procs2 w))"

subsection \<open>Notions the properties of the waits are stated with\<close>

text \<open>
  The status a handle ends with: the attribute when it is set, otherwise the status the
  child exits with, and \<open>None\<close> for a child that never exits.
\<close>

definition final_status :: "world \<Rightarrow> handle \<Rightarrow> int option" where
  "final_status w h =
     (case returncode w h of Some c \<Rightarrow> Some c | None \<Rightarrow> map_option snd (os w h))"

text \<open>The handle terminates with a nonzero exit code.\<close>

definition exits_nonzero :: "world \<Rightarrow> handle \<Rightarrow> bool" where
  "exits_nonzero w h = (case final_status w h of None \<Rightarrow> False | Some c \<Rightarrow> c \<noteq> 0)"

text \<open>The world after the handles \<open>hs\<close> have been queried one after the other.\<close>

fun polls :: "world \<Rightarrow> handle list \<Rightarrow> world" where
  "polls w [] = w"
| "polls w (h # hs) = polls (snd (poll w h)) hs"

text \<open>
  What the query of the \<open>k\<close>-th handle returns when the handles \<open>hs\<close> are queried in
  order from \<open>w\<close>: the termination-detection condition of position \<open>k\<close> in a sweep that
  starts in \<open>w\<close> is \<open>query w hs k = Some 0\<close>.
\<close>

definition query :: "world \<Rightarrow> handle list \<Rightarrow> nat \<Rightarrow> int option" where
  "query w hs k = fst (poll (polls w (take k hs)) (hs ! k))"

text \<open>The handles of an argument of \<open>subprocess_wait_multi\<close>; \<open>None\<close> has none.\<close>

definition handles_of :: "world \<Rightarrow> lref option \<Rightarrow> handle list" where
  "handles_of w procs = (case procs of None \<Rightarrow> [] | Some r \<Rightarrow> lists w r)"

subsection \<open>The launchers\<close>

text \<open>
  The arguments of \<open>subprocess.Popen\<close> the launchers pass. A stream argument left out is
  \<open>None\<close>; \<open>stderr\<close> may also be \<open>subprocess.STDOUT\<close>.
\<close>

type_synonym fd = nat

datatype redirect = PIPE | FileObj fd

datatype err_redirect = ErrTo redirect | STDOUT

record popen_args =
  cmd :: string
  shell :: bool
  cwd :: "string option"
  env :: "(string \<times> string) list option"
  stdin_arg :: "redirect option"
  stdout_arg :: "redirect option"
  stderr_arg :: "err_redirect option"

text \<open>
  Where a standard stream of the child is connected: to the caller's own stream, to the
  pipe \<open>Popen\<close> creates for that stream, or to a file of the caller.
\<close>

datatype std = Stdin | Stdout | Stderr

datatype endpoint = Caller std | PipeOf std | File fd

text \<open>
  The \<open>Popen\<close> object: the attributes \<open>stdin\<close>, \<open>stdout\<close> and \<open>stderr\<close>, which hold the
  caller's end of a pipe or \<open>None\<close>, and the wiring of the child.
\<close>

record process =
  p_args :: popen_args
  p_stdin :: "endpoint option"
  p_stdout :: "endpoint option"
  p_stderr :: "endpoint option"
  child_stdin :: endpoint
  child_stdout :: endpoint
  child_stderr :: endpoint

definition wire :: "std \<Rightarrow> redirect option \<Rightarrow> endpoint" where
  "wire s a = (case a of None \<Rightarrow> Caller s | Some PIPE \<Rightarrow> PipeOf s | Some (FileObj f) \<Rightarrow> File f)"

definition attr :: "std \<Rightarrow> redirect option \<Rightarrow> endpoint option" where
  "attr s a = (case a of Some PIPE \<Rightarrow> Some (PipeOf s) | _ \<Rightarrow> None)"

text \<open>
  \<open>subprocess.Popen\<close> of the standard library, when the child is created: a stream left
  out is inherited, \<open>PIPE\<close> connects it to a new pipe whose other end is the attribute of
  the object, a file object connects it to that file, and \<open>stderr=STDOUT\<close> sends the
  child's standard error where its standard output goes.
\<close>

definition Popen :: "popen_args \<Rightarrow> process" where
  "Popen a =
     \<lparr>p_args = a,
      p_stdin = attr Stdin (stdin_arg a),
      p_stdout = attr Stdout (stdout_arg a),
      p_stderr = (case stderr_arg a of Some (ErrTo r) \<Rightarrow> attr Stderr (Some r) | _ \<Rightarrow> None),
      child_stdin = wire Stdin (stdin_arg a),
      child_stdout = wire Stdout (stdout_arg a),
      child_stderr =
        (case stderr_arg a of
           None \<Rightarrow> Caller Stderr
         | Some STDOUT \<Rightarrow> wire Stdout (stdout_arg a)
         | Some (ErrTo r) \<Rightarrow> wire Stderr (Some r))\<rparr>"

text \<open>
  What the calls into the system do during one call of a launcher: \<open>open(os.devnull, 'w')\<close>
  raises or returns a file, creating the child raises or succeeds, \<open>proc.wait()\<close> raises,
  returns the exit code, or never returns (\<open>None\<close>), and closing a file raises or not.
\<close>

record sys =
  open_devnull :: "exn + fd"
  spawn :: "popen_args \<Rightarrow> exn option"
  wait :: "(exn + int) option"
  close :: "fd \<Rightarrow> exn option"

datatype call = OpenDevnull fd | Spawn popen_args | Wait | Close fd

record io =
  open_files :: "fd set"
  calls :: "call list"

text \<open>\<open>subprocess.Popen(...)\<close> in the system \<open>s\<close>: the exception, or the new object.\<close>

definition popen :: "sys \<Rightarrow> popen_args \<Rightarrow> exn + process" where
  "popen s a = (case spawn s a of Some e \<Rightarrow> Inl e | None \<Rightarrow> Inr (Popen a))"

definition subprocess_nowait ::
  "sys \<Rightarrow> string \<Rightarrow> bool \<Rightarrow> string option \<Rightarrow> (string \<times> string) list option \<Rightarrow> exn + process" where
  "subprocess_nowait s c sh d e =
     popen s \<lparr>cmd = c, shell = sh, cwd = d, env = e,
              stdin_arg = None, stdout_arg = None, stderr_arg = None\<rparr>"

definition subprocess_nowait_pipe_stdout ::
  "sys \<Rightarrow> string \<Rightarrow> bool \<Rightarrow> string option \<Rightarrow> (string \<times> string) list option \<Rightarrow> exn + process" where
  "subprocess_nowait_pipe_stdout s c sh d e =
     popen s \<lparr>cmd = c, shell = sh, cwd = d, env = e,
              stdin_arg = None, stdout_arg = Some PIPE, stderr_arg = None\<rparr>"

text \<open>
  \<open>subprocess_with_output\<close>. \<open>popen_wait\<close> is \<open>proc = subprocess.Popen(...)\<close> followed by
  \<open>proc.wait()\<close>, which leaves the exit code in \<open>proc.returncode\<close>. \<open>try_body\<close> is the
  body of the \<open>try\<close>: it gives the exception it raised or the return code, the value of
  \<open>_devnull\<close>, and the state; it is \<open>None\<close> when \<open>proc.wait()\<close> never returns.
\<close>

definition popen_wait ::
  "sys \<Rightarrow> io \<Rightarrow> popen_args \<Rightarrow> fd option \<Rightarrow> ((exn + int) \<times> fd option \<times> io) option" where
  "popen_wait s st a devnull =
     (let st1 = st\<lparr>calls := calls st @ [Spawn a]\<rparr> in
      case popen s a of
        Inl e \<Rightarrow> Some (Inl e, devnull, st1)
      | Inr proc \<Rightarrow>
          (let st2 = st1\<lparr>calls := calls st1 @ [Wait]\<rparr> in
           case wait s of
             None \<Rightarrow> None
           | Some (Inl e) \<Rightarrow> Some (Inl e, devnull, st2)
           | Some (Inr rc) \<Rightarrow> Some (Inr rc, devnull, st2)))"

definition try_body ::
  "sys \<Rightarrow> io \<Rightarrow> string \<Rightarrow> bool \<Rightarrow> string option \<Rightarrow> bool \<Rightarrow>
   ((exn + int) \<times> fd option \<times> io) option" where
  "try_body s st c sh d suppress_output =
     (if suppress_output
      then (case open_devnull s of
              Inl e \<Rightarrow> Some (Inl e, None, st)
            | Inr f \<Rightarrow>
                popen_wait s
                  (st\<lparr>open_files := insert f (open_files st),
                      calls := calls st @ [OpenDevnull f]\<rparr>)
                  \<lparr>cmd = c, shell = sh, cwd = d, env = None, stdin_arg = None,
                   stdout_arg = Some (FileObj f), stderr_arg = Some STDOUT\<rparr>
                  (Some f))
      else popen_wait s st
             \<lparr>cmd = c, shell = sh, cwd = d, env = None, stdin_arg = None,
              stdout_arg = None, stderr_arg = None\<rparr>
             None)"

text \<open>
  The \<open>finally\<close> clause closes \<open>_devnull\<close> when it is not \<open>None\<close>. The file is released
  whether or not \<open>close()\<close> raises; an exception raised in a \<open>finally\<close> clause is the one
  that leaves it, otherwise the exception of the body is raised again, and after a normal
  body the function returns \<open>proc.returncode\<close>.
\<close>

definition subprocess_with_output ::
  "sys \<Rightarrow> io \<Rightarrow> string \<Rightarrow> bool \<Rightarrow> string option \<Rightarrow> bool \<Rightarrow> ((exn + int) \<times> io) option" where
  "subprocess_with_output s st c sh d suppress_output =
     (case try_body s st c sh d suppress_output of
        None \<Rightarrow> None
      | Some (r, devnull, st1) \<Rightarrow>
          (case devnull of
             None \<Rightarrow> Some (r, st1)
           | Some f \<Rightarrow>
               (let st2 = st1\<lparr>open_files := open_files st1 - {f},
                              calls := calls st1 @ [Close f]\<rparr> in
                case close s f of
                  Some e \<Rightarrow> Some (Inl e, st2)
                | None \<Rightarrow> Some (r, st2))))"

subsection \<open>Invariants of the loop of \<open>subprocess_wait_all\<close>\<close>

text \<open>Every slot of the result list is empty or holds \<open>0\<close>.\<close>

definition zeros_or_none :: "int option list \<Rightarrow> bool" where
  "zeros_or_none rcodes = list_all (\<lambda>x. x = None \<or> x = Some 0) rcodes"

text \<open>The attribute of the handle is set, or its child has exited by tick \<open>T\<close>.\<close>

definition exits_by :: "world \<Rightarrow> nat \<Rightarrow> handle \<Rightarrow> bool" where
  "exits_by w T h =
     (case returncode w h of
        Some c \<Rightarrow> True
      | None \<Rightarrow> (case os w h of None \<Rightarrow> False | Some (t, c) \<Rightarrow> t \<le> T))"



subsection \<open>Worlds and systems the properties are instantiated at\<close>

text \<open>No process and only empty collections.\<close>

definition w_empty :: world where
  "w_empty = \<lparr>now = 0, os = (\<lambda>h. None), returncode = (\<lambda>h. None), lists = (\<lambda>r. []),
     trace = []\<rparr>"

text \<open>
  Three children that all exit with code 0, the last of the collection first and the first
  last.
\<close>

definition w3 :: world where
  "w3 = \<lparr>now = 0,
          os = (\<lambda>h. if h = 10 then Some (7, 0) else if h = 11 then Some (4, 0)
                     else if h = 12 then Some (0, 0) else None),
          returncode = (\<lambda>h. None),
          lists = (\<lambda>r. if r = 0 then [10, 11, 12] else []),
          trace = []\<rparr>"



text \<open>Two children that exit with the codes 1 and -9.\<close>

definition wnz :: world where
  "wnz = \<lparr>now = 0,
           os = (\<lambda>h. if h = 40 then Some (0, 1) else if h = 41 then Some (2, - 9) else None),
           returncode = (\<lambda>h. None),
           lists = (\<lambda>r. if r = 0 then [40, 41] else []),
           trace = []\<rparr>"


text \<open>
  A first collection of two running children and a second collection of one child that has
  exited with code 0.
\<close>

definition wm :: world where
  "wm = \<lparr>now = 0,
          os = (\<lambda>h. if h = 32 then Some (0, 0) else None),
          returncode = (\<lambda>h. None),
          lists = (\<lambda>r. if r = 1 then [30, 31] else if r = 2 then [32] else []),
          trace = []\<rparr>"



text \<open>
  Systems for \<open>subprocess_with_output\<close>: in both the sink is opened as file 3 and creating
  the child raises; closing the sink succeeds in the first and raises in the second.
\<close>

definition sys_spawn_fails :: sys where
  "sys_spawn_fails =
     \<lparr>open_devnull = Inr 3, spawn = (\<lambda>a. Some (OSError ''spawn'')),
      wait = Some (Inr 0), close = (\<lambda>f. None)\<rparr>"

definition sys_close_fails :: sys where
  "sys_close_fails =
     \<lparr>open_devnull = Inr 3, spawn = (\<lambda>a. Some (OSError ''spawn'')),
      wait = Some (Inr 0), close = (\<lambda>f. Some (OSError ''close''))\<rparr>"

text \<open>A system in which every call succeeds and the child exits with code 0.\<close>

definition sys_ok :: sys where
  "sys_ok = \<lparr>open_devnull = Inr 3, spawn = (\<lambda>a. None), wait = Some (Inr 0),
     close = (\<lambda>f. None)\<rparr>"

text \<open>The caller has its three standard streams open and has made no call.\<close>

definition io0 :: io where
  "io0 = \<lparr>open_files = {0, 1, 2}, calls = []\<rparr>"

section \<open>Properties\<close>

subsection \<open>Status queries and sleeps\<close>

lemma poll_now: "now (snd (poll w h)) = Suc (now w)"
  by (simp add: poll_def Let_def split: option.splits prod.splits)

lemma poll_os: "os (snd (poll w h)) = os w"
  by (simp add: poll_def Let_def split: option.splits prod.splits)

lemma poll_lists: "lists (snd (poll w h)) = lists w"
  by (simp add: poll_def Let_def split: option.splits prod.splits)

lemma poll_trace: "trace (snd (poll w h)) = trace w @ [Poll h]"
  by (simp add: poll_def Let_def split: option.splits prod.splits)

lemma poll_returncode_self: "returncode (snd (poll w h)) h = fst (poll w h)"
  by (simp add: poll_def Let_def split: option.splits prod.splits)

lemma poll_returncode_other:
  "h' \<noteq> h \<Longrightarrow> returncode (snd (poll w h)) h' = returncode w h'"
  by (simp add: poll_def Let_def split: option.splits prod.splits)

lemma poll_returncode_keeps:
  "returncode w h' = Some c \<Longrightarrow> returncode (snd (poll w h)) h' = Some c"
  by (auto simp add: poll_def Let_def split: option.splits prod.splits)

lemma poll_final_status: "final_status (snd (poll w h)) h' = final_status w h'"
  by (auto simp add: final_status_def poll_def Let_def split: option.splits prod.splits)

lemma poll_Some_final: "fst (poll w h) = Some c \<Longrightarrow> final_status w h = Some c"
  by (auto simp add: final_status_def poll_def Let_def
      split: option.splits prod.splits if_splits)

lemma poll_zero_returncode: "poll w h = (Some 0, w') \<Longrightarrow> returncode w' h = Some 0"
  using poll_returncode_self [of w h] by simp

lemma sleep_final_status: "final_status (sleep w) h = final_status w h"
  by (simp add: final_status_def sleep_def split: option.splits)

subsection \<open>Invalid arguments\<close>

text \<open>
  C3. \<open>subprocess_wait_all\<close> and \<open>subprocess_wait_any\<close> raise \<open>ValueError\<close> for an argument
  that is \<open>None\<close> or empty, \<open>subprocess_wait_multi\<close> raises it when both arguments are, and
  for no other arguments. The world the raising call leaves is the world it was called in:
  no status query was made and nothing has changed.
\<close>

theorem wait_invalid_argument:
  "(none_or_empty w procs \<longrightarrow>
      subprocess_wait_all w procs = Some (Inl (ValueError ''procs is invalid''), w) \<and>
      subprocess_wait_any w procs = Some (Inl (ValueError ''procs is invalid''), w)) \<and>
   (none_or_empty w procs1 \<and> none_or_empty w procs2 \<longrightarrow>
      subprocess_wait_multi w procs1 procs2 =
        Some (Inl (ValueError ''both procs1 and procs2 are invalid''), w)) \<and>
   (\<not> (none_or_empty w procs1 \<and> none_or_empty w procs2) \<longrightarrow>
      (\<forall>e w'. subprocess_wait_multi w procs1 procs2 \<noteq> Some (Inl e, w')))"
  by (auto simp: subprocess_wait_all_def subprocess_wait_any_def subprocess_wait_multi_def
      split: prod.splits)

theorem wait_invalid_argument_witness:
  "none_or_empty w_empty None \<and> none_or_empty w_empty (Some 0) \<and>
   subprocess_wait_all w_empty (Some 0) =
     Some (Inl (ValueError ''procs is invalid''), w_empty) \<and>
   subprocess_wait_any w_empty None =
     Some (Inl (ValueError ''procs is invalid''), w_empty) \<and>
   subprocess_wait_multi w_empty None (Some 0) =
     Some (Inl (ValueError ''both procs1 and procs2 are invalid''), w_empty) \<and>
   none_or_empty wm None \<and> \<not> none_or_empty wm (Some 2) \<and>
   map_option fst (subprocess_wait_multi wm None (Some 2)) = Some (Inr (2, 0, Some 0))"
proof -
  have e: "none_or_empty w_empty None \<and> none_or_empty w_empty (Some 0)"
    by (simp add: none_or_empty_def w_empty_def)
  have m: "none_or_empty wm None \<and> \<not> none_or_empty wm (Some 2)"
    by (simp add: none_or_empty_def wm_def)
  have r: "map_option fst (subprocess_wait_multi wm None (Some 2)) = Some (Inr (2, 0, Some 0))"
    by (simp add: subprocess_wait_multi_def wait_multi_sweep_def none_or_empty_def wm_def
        wait_multi_loop.simps poll_def sleep_def Let_def upt_rec)
  from wait_invalid_argument [of w_empty "Some 0" None "Some 0"]
    wait_invalid_argument [of w_empty None None "Some 0"]
    wait_invalid_argument [of wm None None "Some 2"] e m r
  show ?thesis by simp
qed

subsection \<open>Sweeps of \<open>subprocess_wait_all\<close>\<close>

text \<open>
  A property of the world and the result list that every step of the \<open>for\<close> loop keeps
  holds after the loop.
\<close>

lemma wait_all_sweep_inv:
  assumes "I w rcodes"
    and "\<And>i w rcodes. i \<in> set js \<Longrightarrow> I w rcodes \<Longrightarrow> rcodes ! i = None \<Longrightarrow>
           fst (poll w (procs ! i)) \<noteq> Some 0 \<Longrightarrow> I (snd (poll w (procs ! i))) rcodes"
    and "\<And>i w rcodes. i \<in> set js \<Longrightarrow> I w rcodes \<Longrightarrow> rcodes ! i = None \<Longrightarrow>
           fst (poll w (procs ! i)) = Some 0 \<Longrightarrow>
           I (snd (poll w (procs ! i))) (rcodes[i := Some 0])"
  shows "I (fst (wait_all_sweep procs js w rcodes)) (snd (wait_all_sweep procs js w rcodes))"
  using assms
proof (induction js arbitrary: w rcodes)
  case Nil
  then show ?case by simp
next
  case (Cons i js)
  have later: "\<And>w rcodes. I w rcodes \<Longrightarrow>
      I (fst (wait_all_sweep procs js w rcodes)) (snd (wait_all_sweep procs js w rcodes))"
  proof -
    fix w rcodes assume "I w rcodes"
    then show "I (fst (wait_all_sweep procs js w rcodes)) (snd (wait_all_sweep procs js w rcodes))"
    proof (rule Cons.IH)
      show "\<And>i w rcodes. i \<in> set js \<Longrightarrow> I w rcodes \<Longrightarrow> rcodes ! i = None \<Longrightarrow>
           fst (poll w (procs ! i)) \<noteq> Some 0 \<Longrightarrow> I (snd (poll w (procs ! i))) rcodes"
        using Cons.prems(2) by simp
      show "\<And>i w rcodes. i \<in> set js \<Longrightarrow> I w rcodes \<Longrightarrow> rcodes ! i = None \<Longrightarrow>
           fst (poll w (procs ! i)) = Some 0 \<Longrightarrow>
           I (snd (poll w (procs ! i))) (rcodes[i := Some 0])"
        using Cons.prems(3) by simp
    qed
  qed
  show ?case
  proof (cases "rcodes ! i = None")
    case False
    then show ?thesis using later [OF Cons.prems(1)] by (simp del: not_None_eq)
  next
    case True
    obtain r w1 where p: "poll w (procs ! i) = (r, w1)" by (cases "poll w (procs ! i)")
    show ?thesis
    proof (cases "r = Some 0")
      case r0: True
      have rc: "returncode w1 (procs ! i) = Some 0"
        using poll_zero_returncode p r0 by simp
      have "I w1 (rcodes[i := Some 0])"
        using Cons.prems(3) [of i w rcodes] Cons.prems(1) True p r0 by simp
      from later [OF this] show ?thesis using True p r0 rc by simp
    next
      case False
      have "I w1 rcodes"
        using Cons.prems(2) [of i w rcodes] Cons.prems(1) True p False by simp
      from later [OF this] show ?thesis using True p False by simp
    qed
  qed
qed

lemma wait_all_sweep_length:
  "length (snd (wait_all_sweep procs js w rcodes)) = length rcodes"
  by (rule wait_all_sweep_inv [where I = "\<lambda>w' rc. length rc = length rcodes"]) simp_all

lemma wait_all_sweep_final_status:
  "final_status (fst (wait_all_sweep procs js w rcodes)) h = final_status w h"
  by (rule wait_all_sweep_inv [where I = "\<lambda>w' rc. final_status w' h = final_status w h"])
     (simp_all add: poll_final_status)

lemma wait_all_sweep_lists:
  "lists (fst (wait_all_sweep procs js w rcodes)) = lists w"
  by (rule wait_all_sweep_inv [where I = "\<lambda>w' rc. lists w' = lists w"])
     (simp_all add: poll_lists)

lemma wait_all_sweep_now:
  "now w \<le> now (fst (wait_all_sweep procs js w rcodes))"
  by (rule wait_all_sweep_inv [where I = "\<lambda>w' rc. now w \<le> now w'"])
     (simp_all add: poll_now)

lemma zeros_or_none_update:
  "zeros_or_none rcodes \<Longrightarrow> zeros_or_none (rcodes[i := Some 0])"
  unfolding zeros_or_none_def list_all_iff
  by (metis insert_iff set_update_subset_insert subsetD)

lemma wait_all_sweep_zeros:
  "zeros_or_none rcodes \<Longrightarrow> zeros_or_none (snd (wait_all_sweep procs js w rcodes))"
  by (rule wait_all_sweep_inv [where I = "\<lambda>w' rc. zeros_or_none rc"])
     (simp_all add: zeros_or_none_update)

text \<open>A filled slot keeps its value.\<close>

lemma wait_all_sweep_keeps:
  assumes "rcodes ! i = Some c"
  shows "snd (wait_all_sweep procs js w rcodes) ! i = Some c"
proof (rule wait_all_sweep_inv [where I = "\<lambda>w' rc. rc ! i = Some c"])
  show "rcodes ! i = Some c" by fact
next
  fix j and w :: world and rc :: "int option list"
  assume "rc ! i = Some c" "rc ! j = None"
  then have "j \<noteq> i" by auto
  then show "rc[j := Some 0] ! i = Some c" using \<open>rc ! i = Some c\<close> by simp
qed simp

text \<open>The slot of a handle that never reports \<open>0\<close> stays empty.\<close>

lemma wait_all_sweep_stalls:
  assumes "final_status w (procs ! i) \<noteq> Some 0" "rcodes ! i = None" "i < length rcodes"
  shows "snd (wait_all_sweep procs js w rcodes) ! i = None"
proof -
  let ?I = "\<lambda>w' rc. final_status w' (procs ! i) \<noteq> Some 0 \<and> rc ! i = None \<and> length rc = length rcodes"
  have "?I (fst (wait_all_sweep procs js w rcodes)) (snd (wait_all_sweep procs js w rcodes))"
  proof (rule wait_all_sweep_inv [where I = ?I])
    show "?I w rcodes" using assms by simp
  next
    fix j and w' :: world and rc :: "int option list"
    assume "?I w' rc"
    then show "?I (snd (poll w' (procs ! j))) rc" by (simp add: poll_final_status)
  next
    fix j and w' :: world and rc :: "int option list"
    assume a: "?I w' rc" and z: "fst (poll w' (procs ! j)) = Some 0"
    have "final_status w' (procs ! j) = Some 0" using poll_Some_final [OF z] .
    with a have "j \<noteq> i" by auto
    with a show "?I (snd (poll w' (procs ! j))) (rc[j := Some 0])"
      by (simp add: poll_final_status)
  qed
  then show ?thesis by simp
qed

lemma sleep_now: "now (sleep w) = Suc (now w)" by (simp add: sleep_def)
lemma sleep_lists: "lists (sleep w) = lists w" by (simp add: sleep_def)
lemma sleep_returncode: "returncode (sleep w) = returncode w" by (simp add: sleep_def)
lemma sleep_os: "os (sleep w) = os w" by (simp add: sleep_def)

lemma poll_exits_by: "exits_by w T h' \<Longrightarrow> exits_by (snd (poll w h)) T h'"
  by (auto simp: exits_by_def poll_def Let_def split: option.splits prod.splits)

lemma sleep_exits_by: "exits_by (sleep w) T h = exits_by w T h"
  by (simp add: exits_by_def sleep_def split: option.splits)

lemma exits_by_mono: "exits_by w T h \<Longrightarrow> T \<le> T' \<Longrightarrow> exits_by w T' h"
  by (auto simp: exits_by_def split: option.splits)

lemma poll_exited:
  "exits_by w (now w) h \<Longrightarrow> final_status w h = Some c \<Longrightarrow> fst (poll w h) = Some c"
  by (auto simp: exits_by_def final_status_def poll_def Let_def split: option.splits)

lemma wait_all_sweep_exits_by:
  "exits_by w T h \<Longrightarrow> exits_by (fst (wait_all_sweep procs js w rcodes)) T h"
  by (rule wait_all_sweep_inv [where I = "\<lambda>w' rc. exits_by w' T h"])
     (simp_all add: poll_exits_by)

lemma wait_all_loop_stalls:
  assumes "final_status w (procs ! i) \<noteq> Some 0" "rcodes ! i = None" "i < length rcodes"
  shows "wait_all_loop procs w rcodes = None"
proof (rule ccontr)
  assume "wait_all_loop procs w rcodes \<noteq> None"
  then obtain y where y: "wait_all_loop procs w rcodes = Some y" by auto
  have "\<not> (final_status w (procs ! i) \<noteq> Some 0 \<and> rcodes ! i = None \<and> i < length rcodes)"
  proof (rule wait_all_loop.raw_induct
      [where P = "\<lambda>procs w rcodes y.
         \<not> (final_status w (procs ! i) \<noteq> Some 0 \<and> rcodes ! i = None \<and> i < length rcodes)",
        OF _ y])
    fix loop :: "handle list \<Rightarrow> world \<Rightarrow> int option list \<Rightarrow> (int option list \<times> world) option"
    fix procs w rcodes y
    assume IH: "\<And>procs w rcodes y. loop procs w rcodes = Some y \<Longrightarrow>
        \<not> (final_status w (procs ! i) \<noteq> Some 0 \<and> rcodes ! i = None \<and> i < length rcodes)"
    assume step: "(case wait_all_sweep procs [0..<length procs] w rcodes of
          (w', rcodes') \<Rightarrow>
            if list_all (\<lambda>x. x \<noteq> None) rcodes' then Some (rcodes', w')
            else loop procs (sleep w') rcodes') = Some y"
    show "\<not> (final_status w (procs ! i) \<noteq> Some 0 \<and> rcodes ! i = None \<and> i < length rcodes)"
    proof
      assume a: "final_status w (procs ! i) \<noteq> Some 0 \<and> rcodes ! i = None \<and> i < length rcodes"
      obtain w1 rc1 where s: "wait_all_sweep procs [0..<length procs] w rcodes = (w1, rc1)"
        by (cases "wait_all_sweep procs [0..<length procs] w rcodes")
      have e: "rc1 ! i = None"
        using wait_all_sweep_stalls [of w procs i rcodes "[0..<length procs]"] a s by simp
      have l: "i < length rc1"
        using wait_all_sweep_length [of procs "[0..<length procs]" w rcodes] a s by simp
      have f: "final_status (sleep w1) (procs ! i) \<noteq> Some 0"
        using wait_all_sweep_final_status [of procs "[0..<length procs]" w rcodes "procs ! i"]
          a s by (simp add: sleep_final_status)
      have "\<not> list_all (\<lambda>x. x \<noteq> None) rc1"
        using e l by (auto simp: list_all_length)
      with step s have "loop procs (sleep w1) rc1 = Some y" by simp
      from IH [OF this] e l f show False by simp
    qed
  qed
  with assms show False by simp
qed

lemma wait_all_sweep_fills:
  assumes "\<forall>h\<in>set procs. final_status w h = Some 0 \<and> exits_by w (now w) h"
    and "\<forall>j\<in>set js. j < length rcodes \<and> j < length procs"
  shows "\<forall>j\<in>set js. snd (wait_all_sweep procs js w rcodes) ! j \<noteq> None"
  using assms
proof (induction js arbitrary: w rcodes)
  case Nil
  then show ?case by simp
next
  case (Cons i js)
  have i: "i < length rcodes" "i < length procs" using Cons.prems(2) by simp_all
  have js: "\<forall>j\<in>set js. j < length rcodes \<and> j < length procs" using Cons.prems(2) by simp
  show ?case
  proof (cases "rcodes ! i = None")
    case False
    then obtain c where c: "rcodes ! i = Some c" by auto
    have "snd (wait_all_sweep procs js w rcodes) ! i = Some c"
      using wait_all_sweep_keeps [OF c] .
    moreover have "\<forall>j\<in>set js. snd (wait_all_sweep procs js w rcodes) ! j \<noteq> None"
      using Cons.IH [OF Cons.prems(1) js] .
    ultimately show ?thesis using False by (simp del: not_None_eq)
  next
    case True
    obtain r w1 where p: "poll w (procs ! i) = (r, w1)" by (cases "poll w (procs ! i)")
    have hi: "procs ! i \<in> set procs" using i by simp
    have r0: "r = Some 0"
      using poll_exited [of w "procs ! i" 0] Cons.prems(1) hi p by auto
    have rc: "returncode w1 (procs ! i) = Some 0"
      using poll_zero_returncode p r0 by simp
    have w1: "\<forall>h\<in>set procs. final_status w1 h = Some 0 \<and> exits_by w1 (now w1) h"
    proof
      fix h assume h: "h \<in> set procs"
      have "exits_by (snd (poll w (procs ! i))) (now w) h"
        using poll_exits_by Cons.prems(1) h by blast
      then have "exits_by w1 (now w1) h"
        using p poll_now [of w "procs ! i"] exits_by_mono [of w1 "now w" h "now w1"] by simp
      moreover have "final_status w1 h = Some 0"
        using poll_final_status [of w "procs ! i" h] p Cons.prems(1) h by simp
      ultimately show "final_status w1 h = Some 0 \<and> exits_by w1 (now w1) h" by simp
    qed
    have js': "\<forall>j\<in>set js. j < length (rcodes[i := Some 0]) \<and> j < length procs"
      using js by simp
    have "snd (wait_all_sweep procs js w1 (rcodes[i := Some 0])) ! i = Some 0"
      using wait_all_sweep_keeps [of "rcodes[i := Some 0]" i 0] i by simp
    moreover have "\<forall>j\<in>set js. snd (wait_all_sweep procs js w1 (rcodes[i := Some 0])) ! j \<noteq> None"
      using Cons.IH [OF w1 js'] .
    ultimately show ?thesis using True p r0 rc by simp
  qed
qed

lemma zeros_all_filled:
  "zeros_or_none xs \<Longrightarrow> list_all (\<lambda>x. x \<noteq> None) xs \<Longrightarrow> xs = replicate (length xs) (Some 0)"
  by (induction xs) (auto simp: zeros_or_none_def)

lemma wait_all_loop_returns:
  assumes "\<forall>h\<in>set procs. final_status w h = Some 0 \<and> exits_by w T h"
    and "zeros_or_none rcodes" and "length rcodes = length procs"
  shows "\<exists>w'. wait_all_loop procs w rcodes = Some (replicate (length procs) (Some 0), w')"
  using assms
proof (induction "T - now w" arbitrary: w rcodes rule: less_induct)
  case less
  obtain w1 rc1 where s: "wait_all_sweep procs [0..<length procs] w rcodes = (w1, rc1)"
    by (cases "wait_all_sweep procs [0..<length procs] w rcodes")
  have len: "length rc1 = length procs"
    using wait_all_sweep_length [of procs "[0..<length procs]" w rcodes] s less.prems(3) by simp
  have z1: "zeros_or_none rc1"
    using wait_all_sweep_zeros [OF less.prems(2), of procs "[0..<length procs]" w] s by simp
  show ?case
  proof (cases "list_all (\<lambda>x. x \<noteq> None) rc1")
    case True
    have "rc1 = replicate (length procs) (Some 0)"
      using zeros_all_filled [OF z1 True] len by simp
    then show ?thesis using s True by (subst wait_all_loop.simps) simp
  next
    case False
    have lt: "now w < T"
    proof (rule ccontr)
      assume "\<not> now w < T"
      then have "\<forall>h\<in>set procs. final_status w h = Some 0 \<and> exits_by w (now w) h"
        using less.prems(1) exits_by_mono [of w T _ "now w"] by auto
      then have "\<forall>j\<in>set [0..<length procs]. rc1 ! j \<noteq> None"
        using wait_all_sweep_fills [of procs w "[0..<length procs]" rcodes] less.prems(3) s
        by simp
      then have "list_all (\<lambda>x. x \<noteq> None) rc1"
        using len by (simp add: list_all_length)
      with False show False by simp
    qed
    have n1: "now w \<le> now w1"
      using wait_all_sweep_now [of w procs "[0..<length procs]" rcodes] s by simp
    have m: "T - now (sleep w1) < T - now w" using lt n1 by (simp add: sleep_now)
    have inv: "\<forall>h\<in>set procs. final_status (sleep w1) h = Some 0 \<and> exits_by (sleep w1) T h"
    proof
      fix h assume h: "h \<in> set procs"
      have "final_status w1 h = Some 0"
        using wait_all_sweep_final_status [of procs "[0..<length procs]" w rcodes h] s
          less.prems(1) h by simp
      moreover have "exits_by w1 T h"
        using wait_all_sweep_exits_by [of w T h procs "[0..<length procs]" rcodes] s
          less.prems(1) h by simp
      ultimately show "final_status (sleep w1) h = Some 0 \<and> exits_by (sleep w1) T h"
        by (simp add: sleep_final_status sleep_exits_by)
    qed
    from less.hyps [OF m inv z1 len]
    obtain w' where "wait_all_loop procs (sleep w1) rc1 = Some (replicate (length procs) (Some 0), w')"
      by blast
    then show ?thesis using s False by (subst wait_all_loop.simps) simp
  qed
qed

lemma exits_by_bound:
  assumes "\<forall>h\<in>set hs. final_status w h = Some c"
  shows "\<exists>T. \<forall>h\<in>set hs. exits_by w T h"
  using assms
proof (induction hs)
  case Nil
  then show ?case by simp
next
  case (Cons h hs)
  then obtain T where T: "\<forall>h\<in>set hs. exits_by w T h" by auto
  have "\<exists>t. exits_by w t h"
    using Cons.prems by (auto simp: final_status_def exits_by_def split: option.splits)
  then obtain t where t: "exits_by w t h" ..
  have "\<forall>x\<in>set (h # hs). exits_by w (max T t) x"
    using T t exits_by_mono [of w T _ "max T t"] exits_by_mono [of w t h "max T t"] by auto
  then show ?case ..
qed

subsection \<open>Sweeps of \<open>subprocess_wait_any\<close>\<close>

lemma query_Cons_0: "query w (h # hs) 0 = fst (poll w h)"
  by (simp add: query_def)

lemma query_Cons_Suc: "query w (h # hs) (Suc k) = query (snd (poll w h)) hs k"
  by (simp add: query_def)

lemma polls_append: "polls w (xs @ ys) = polls (polls w xs) ys"
  by (induction xs arbitrary: w) simp_all

lemma query_append:
  "query w (xs @ ys) k =
     (if k < length xs then query w xs k else query (polls w xs) ys (k - length xs))"
  by (simp add: query_def polls_append nth_append)

lemma polls_lists: "lists (polls w hs) = lists w"
  by (induction hs arbitrary: w) (simp_all add: poll_lists)

lemma polls_final_status: "final_status (polls w hs) h = final_status w h"
  by (induction hs arbitrary: w) (simp_all add: poll_final_status)

lemma polls_trace: "trace (polls w hs) = trace w @ map Poll hs"
  by (induction hs arbitrary: w) (simp_all add: poll_trace)

text \<open>A sweep that finds nothing has queried every handle.\<close>

lemma wait_any_sweep_none:
  assumes "\<forall>k<length js. query w (map ((!) procs) js) k \<noteq> Some 0"
  shows "wait_any_sweep procs js w = (None, polls w (map ((!) procs) js))"
  using assms
proof (induction js arbitrary: w)
  case Nil
  then show ?case by simp
next
  case (Cons i js)
  obtain r w1 where p: "poll w (procs ! i) = (r, w1)" by (cases "poll w (procs ! i)")
  have "query w (map ((!) procs) (i # js)) 0 \<noteq> Some 0" using Cons.prems by blast
  then have r: "r \<noteq> Some 0" using p by (simp add: query_Cons_0)
  have "\<forall>k<length js. query w1 (map ((!) procs) js) k \<noteq> Some 0"
  proof (intro allI impI)
    fix k assume "k < length js"
    then have "query w (map ((!) procs) (i # js)) (Suc k) \<noteq> Some 0"
      using Cons.prems by auto
    then show "query w1 (map ((!) procs) js) k \<noteq> Some 0"
      using p by (simp add: query_Cons_Suc)
  qed
  from Cons.IH [OF this] show ?case using p r by simp
qed

text \<open>A sweep returns at the first position whose query is \<open>0\<close>.\<close>

lemma wait_any_sweep_first:
  assumes "k < length js" "query w (map ((!) procs) js) k = Some 0"
    and "\<forall>j<k. query w (map ((!) procs) js) j \<noteq> Some 0"
  shows "wait_any_sweep procs js w =
           (Some (js ! k, Some 0), polls w (take (Suc k) (map ((!) procs) js)))"
  using assms
proof (induction js arbitrary: w k)
  case Nil
  then show ?case by simp
next
  case (Cons i js)
  obtain r w1 where p: "poll w (procs ! i) = (r, w1)" by (cases "poll w (procs ! i)")
  show ?case
  proof (cases k)
    case 0
    then have r: "r = Some 0" using Cons.prems(2) p by (simp add: query_Cons_0)
    have "returncode w1 (procs ! i) = Some 0" using poll_zero_returncode p r by simp
    then show ?thesis using 0 p r by simp
  next
    case (Suc k')
    have "query w (map ((!) procs) (i # js)) 0 \<noteq> Some 0" using Cons.prems(3) Suc by blast
    then have r: "r \<noteq> Some 0" using p by (simp add: query_Cons_0)
    have a: "k' < length js" using Cons.prems(1) Suc by simp
    have b: "query w1 (map ((!) procs) js) k' = Some 0"
      using Cons.prems(2) Suc p by (simp add: query_Cons_Suc)
    have c: "\<forall>j<k'. query w1 (map ((!) procs) js) j \<noteq> Some 0"
    proof (intro allI impI)
      fix j assume "j < k'"
      then have "query w (map ((!) procs) (i # js)) (Suc j) \<noteq> Some 0"
        using Cons.prems(3) Suc by auto
      then show "query w1 (map ((!) procs) js) j \<noteq> Some 0"
        using p by (simp add: query_Cons_Suc)
    qed
    from Cons.IH [OF a b c] show ?thesis using Suc p r by simp
  qed
qed

lemma first_zero_exists:
  assumes "query w hs k = Some 0"
  shows "\<exists>i\<le>k. query w hs i = Some 0 \<and> (\<forall>j<i. query w hs j \<noteq> Some 0)"
proof -
  let ?i = "LEAST i. query w hs i = Some 0"
  have "query w hs ?i = Some 0" using assms by (rule LeastI)
  moreover have "?i \<le> k" using assms by (rule Least_le)
  moreover have "\<forall>j<?i. query w hs j \<noteq> Some 0" using not_less_Least by blast
  ultimately show ?thesis by blast
qed

text \<open>The whole collection: the indices are \<open>[0..<length procs]\<close>.\<close>

lemma wait_any_sweep_procs_none:
  assumes "\<forall>k<length procs. query w procs k \<noteq> Some 0"
  shows "wait_any_sweep procs [0..<length procs] w = (None, polls w procs)"
  using wait_any_sweep_none [of "[0..<length procs]" w procs] assms by (simp add: map_nth)

lemma wait_any_sweep_procs_first:
  assumes "k < length procs" "query w procs k = Some 0" "\<forall>j<k. query w procs j \<noteq> Some 0"
  shows "wait_any_sweep procs [0..<length procs] w = (Some (k, Some 0), polls w (take (Suc k) procs))"
  using wait_any_sweep_first [of k "[0..<length procs]" w procs] assms by (simp add: map_nth)

lemma wait_any_sweep_cases:
  "(\<exists>k<length procs. query w procs k = Some 0 \<and> (\<forall>j<k. query w procs j \<noteq> Some 0) \<and>
      wait_any_sweep procs [0..<length procs] w =
        (Some (k, Some 0), polls w (take (Suc k) procs))) \<or>
   ((\<forall>k<length procs. query w procs k \<noteq> Some 0) \<and>
      wait_any_sweep procs [0..<length procs] w = (None, polls w procs))"
proof (cases "\<exists>k<length procs. query w procs k = Some 0")
  case True
  then obtain k where k: "k < length procs" "query w procs k = Some 0" by blast
  from first_zero_exists [OF k(2)] obtain i where
    i: "i \<le> k" "query w procs i = Some 0" "\<forall>j<i. query w procs j \<noteq> Some 0" by blast
  have "i < length procs" using i(1) k(1) by simp
  then show ?thesis using wait_any_sweep_procs_first [OF _ i(2,3)] i by blast
next
  case False
  then have "\<forall>k<length procs. query w procs k \<noteq> Some 0" by blast
  then show ?thesis using wait_any_sweep_procs_none by blast
qed

lemma query_final: "query w hs k = Some c \<Longrightarrow> final_status w (hs ! k) = Some c"
  using poll_Some_final [of "polls w (take k hs)" "hs ! k" c]
  by (simp add: query_def polls_final_status)

subsection \<open>The loop of \<open>subprocess_wait_any\<close>\<close>


lemma wait_any_loop_zero:
  assumes "wait_any_loop procs w = Some y"
  shows "fst (fst y) < length procs \<and> snd (fst y) = Some 0"
proof (rule wait_any_loop.raw_induct
    [where P = "\<lambda>procs w y. fst (fst y) < length procs \<and> snd (fst y) = Some 0", OF _ assms])
  fix loop :: "handle list \<Rightarrow> world \<Rightarrow> ((nat \<times> int option) \<times> world) option"
  fix procs w y
  assume IH: "\<And>procs w y. loop procs w = Some y \<Longrightarrow>
      fst (fst y) < length procs \<and> snd (fst y) = Some 0"
  assume step: "(case wait_any_sweep procs [0..<length procs] w of
        (None, w') \<Rightarrow> loop procs (sleep w') | (Some res, w') \<Rightarrow> Some (res, w')) = Some y"
  from wait_any_sweep_cases [of procs w]
  show "fst (fst y) < length procs \<and> snd (fst y) = Some 0"
  proof
    assume "\<exists>k<length procs. query w procs k = Some 0 \<and> (\<forall>j<k. query w procs j \<noteq> Some 0) \<and>
      wait_any_sweep procs [0..<length procs] w = (Some (k, Some 0), polls w (take (Suc k) procs))"
    then obtain k where "k < length procs"
      "wait_any_sweep procs [0..<length procs] w = (Some (k, Some 0), polls w (take (Suc k) procs))"
      by blast
    with step show ?thesis by auto
  next
    assume "(\<forall>k<length procs. query w procs k \<noteq> Some 0) \<and>
      wait_any_sweep procs [0..<length procs] w = (None, polls w procs)"
    with step have "loop procs (sleep (polls w procs)) = Some y" by simp
    from IH [OF this] show ?thesis .
  qed
qed

lemma wait_any_loop_stalls:
  assumes "\<forall>h\<in>set procs. final_status w h \<noteq> Some 0"
  shows "wait_any_loop procs w = None"
proof (rule ccontr)
  assume "wait_any_loop procs w \<noteq> None"
  then obtain y where y: "wait_any_loop procs w = Some y" by auto
  have "\<not> (\<forall>h\<in>set procs. final_status w h \<noteq> Some 0)"
  proof (rule wait_any_loop.raw_induct
      [where P = "\<lambda>procs w y. \<not> (\<forall>h\<in>set procs. final_status w h \<noteq> Some 0)", OF _ y])
    fix loop :: "handle list \<Rightarrow> world \<Rightarrow> ((nat \<times> int option) \<times> world) option"
    fix procs w y
    assume IH: "\<And>procs w y. loop procs w = Some y \<Longrightarrow>
        \<not> (\<forall>h\<in>set procs. final_status w h \<noteq> Some 0)"
    assume step: "(case wait_any_sweep procs [0..<length procs] w of
          (None, w') \<Rightarrow> loop procs (sleep w') | (Some res, w') \<Rightarrow> Some (res, w')) = Some y"
    show "\<not> (\<forall>h\<in>set procs. final_status w h \<noteq> Some 0)"
    proof
      assume a: "\<forall>h\<in>set procs. final_status w h \<noteq> Some 0"
      have n: "\<forall>k<length procs. query w procs k \<noteq> Some 0"
      proof (intro allI impI)
        fix k assume k: "k < length procs"
        show "query w procs k \<noteq> Some 0"
        proof
          assume "query w procs k = Some 0"
          then have "final_status w (procs ! k) = Some 0" by (rule query_final)
          with a k show False by simp
        qed
      qed
      then have "wait_any_sweep procs [0..<length procs] w = (None, polls w procs)"
        by (rule wait_any_sweep_procs_none)
      with step have "loop procs (sleep (polls w procs)) = Some y" by simp
      from IH [OF this] a show False
        by (simp add: sleep_final_status polls_final_status)
    qed
  qed
  with assms show False by simp
qed

subsection \<open>Cycles of \<open>subprocess_wait_multi\<close>\<close>

lemma handles_of_empty: "none_or_empty w procs \<Longrightarrow> handles_of w procs = []"
  by (auto simp: none_or_empty_def handles_of_def split: option.splits)

lemma handles_of_lists: "\<not> none_or_empty w procs \<Longrightarrow> lists w (the procs) = handles_of w procs"
  by (auto simp: none_or_empty_def handles_of_def split: option.splits)

lemma handles_of_polls: "handles_of (polls w hs) procs = handles_of w procs"
  by (simp add: handles_of_def polls_lists split: option.splits)

lemma none_or_empty_polls: "none_or_empty (polls w hs) procs = none_or_empty w procs"
  by (simp add: none_or_empty_def polls_lists split: option.splits)

lemma wait_multi_sweep_cases:
  fixes w procs1 procs2
  defines "A \<equiv> handles_of w procs1" and "B \<equiv> handles_of w procs2"
  shows
  "(\<exists>k<length (A @ B). query w (A @ B) k = Some 0 \<and> (\<forall>j<k. query w (A @ B) j \<noteq> Some 0) \<and>
      wait_multi_sweep procs1 procs2 w =
        (Some (if k < length A then (the procs1, k, Some 0)
               else (the procs2, k - length A, Some 0)),
         polls w (take (Suc k) (A @ B)))) \<or>
   ((\<forall>k<length (A @ B). query w (A @ B) k \<noteq> Some 0) \<and>
      wait_multi_sweep procs1 procs2 w = (None, polls w (A @ B)))"
proof -
  have scanA: "(if \<not> none_or_empty w procs1
            then (let ps1 = lists w (the procs1) in
                  case wait_any_sweep ps1 [0..<length ps1] w of
                    (Some (i, rc), w') \<Rightarrow> (Some (the procs1, i, rc), w')
                  | (None, w') \<Rightarrow> (None, w'))
            else (None, w)) =
        (case wait_any_sweep A [0..<length A] w of
                    (Some (i, rc), w') \<Rightarrow> (Some (the procs1, i, rc), w')
                  | (None, w') \<Rightarrow> (None, w'))"
    by (cases "none_or_empty w procs1") (simp_all add: A_def handles_of_empty handles_of_lists Let_def)
  have scanB: "\<And>w1 :: world. lists w1 = lists w \<Longrightarrow> (if \<not> none_or_empty w1 procs2
           then (let ps2 = lists w1 (the procs2) in
                 case wait_any_sweep ps2 [0..<length ps2] w1 of
                   (Some (i, rc), w') \<Rightarrow> (Some (the procs2, i, rc), w')
                 | (None, w') \<Rightarrow> (None, w'))
           else (None, w1)) =
        (case wait_any_sweep B [0..<length B] w1 of
                   (Some (i, rc), w') \<Rightarrow> (Some (the procs2, i, rc), w')
                 | (None, w') \<Rightarrow> (None, w'))"
  proof -
    fix w1 :: world assume l: "lists w1 = lists w"
    have g: "handles_of w1 procs2 = B" by (simp add: B_def handles_of_def l split: option.splits)
    show "(if \<not> none_or_empty w1 procs2
           then (let ps2 = lists w1 (the procs2) in
                 case wait_any_sweep ps2 [0..<length ps2] w1 of
                   (Some (i, rc), w') \<Rightarrow> (Some (the procs2, i, rc), w')
                 | (None, w') \<Rightarrow> (None, w'))
           else (None, w1)) =
        (case wait_any_sweep B [0..<length B] w1 of
                   (Some (i, rc), w') \<Rightarrow> (Some (the procs2, i, rc), w')
                 | (None, w') \<Rightarrow> (None, w'))"
      using handles_of_empty [of w1 procs2] handles_of_lists [of w1 procs2] g
      by (cases "none_or_empty w1 procs2") (simp_all add: Let_def)
  qed
  from wait_any_sweep_cases [of A w] show ?thesis
  proof
    assume "\<exists>k<length A. query w A k = Some 0 \<and> (\<forall>j<k. query w A j \<noteq> Some 0) \<and>
      wait_any_sweep A [0..<length A] w = (Some (k, Some 0), polls w (take (Suc k) A))"
    then obtain k where k: "k < length A" "query w A k = Some 0" "\<forall>j<k. query w A j \<noteq> Some 0"
      "wait_any_sweep A [0..<length A] w = (Some (k, Some 0), polls w (take (Suc k) A))"
      by blast
    have "wait_multi_sweep procs1 procs2 w = (Some (the procs1, k, Some 0), polls w (take (Suc k) A))"
      unfolding wait_multi_sweep_def scanA using k(4) by simp
    moreover have "query w (A @ B) k = Some 0" using k(1,2) by (simp add: query_append)
    moreover have "\<forall>j<k. query w (A @ B) j \<noteq> Some 0" using k(1,3) by (simp add: query_append)
    ultimately show ?thesis using k(1) by (intro disjI1 exI [of _ k]) simp
  next
    assume a: "(\<forall>k<length A. query w A k \<noteq> Some 0) \<and>
      wait_any_sweep A [0..<length A] w = (None, polls w A)"
    have m: "wait_multi_sweep procs1 procs2 w =
        (case wait_any_sweep B [0..<length B] (polls w A) of
                   (Some (i, rc), w') \<Rightarrow> (Some (the procs2, i, rc), w')
                 | (None, w') \<Rightarrow> (None, w'))"
      unfolding wait_multi_sweep_def scanA using a scanB [of "polls w A"]
      by (simp add: polls_lists)
    from wait_any_sweep_cases [of B "polls w A"] show ?thesis
    proof
      assume "\<exists>k<length B. query (polls w A) B k = Some 0 \<and>
        (\<forall>j<k. query (polls w A) B j \<noteq> Some 0) \<and>
        wait_any_sweep B [0..<length B] (polls w A) =
          (Some (k, Some 0), polls (polls w A) (take (Suc k) B))"
      then obtain k where k: "k < length B" "query (polls w A) B k = Some 0"
        "\<forall>j<k. query (polls w A) B j \<noteq> Some 0"
        "wait_any_sweep B [0..<length B] (polls w A) =
          (Some (k, Some 0), polls (polls w A) (take (Suc k) B))"
        by blast
      let ?k = "length A + k"
      have "wait_multi_sweep procs1 procs2 w =
          (Some (the procs2, k, Some 0), polls w (take (Suc ?k) (A @ B)))"
        using m k(4) by (simp add: polls_append)
      moreover have "query w (A @ B) ?k = Some 0" using k(2) by (simp add: query_append)
      moreover have "\<forall>j<?k. query w (A @ B) j \<noteq> Some 0"
      proof (intro allI impI)
        fix j assume j: "j < ?k"
        show "query w (A @ B) j \<noteq> Some 0"
        proof (cases "j < length A")
          case True
          then show ?thesis using a by (simp add: query_append)
        next
          case False
          then have "j - length A < k" using j by simp
          then show ?thesis using False k(3) by (simp add: query_append)
        qed
      qed
      ultimately show ?thesis using k(1) by (intro disjI1 exI [of _ ?k]) simp
    next
      assume b: "(\<forall>k<length B. query (polls w A) B k \<noteq> Some 0) \<and>
        wait_any_sweep B [0..<length B] (polls w A) = (None, polls (polls w A) B)"
      have "wait_multi_sweep procs1 procs2 w = (None, polls w (A @ B))"
        using m b by (simp add: polls_append)
      moreover have "\<forall>k<length (A @ B). query w (A @ B) k \<noteq> Some 0"
      proof (intro allI impI)
        fix j assume j: "j < length (A @ B)"
        show "query w (A @ B) j \<noteq> Some 0"
        proof (cases "j < length A")
          case True
          then show ?thesis using a by (simp add: query_append)
        next
          case False
          then have "j - length A < length B" using j by simp
          then show ?thesis using False b by (simp add: query_append)
        qed
      qed
      ultimately show ?thesis by blast
    qed
  qed
qed

subsection \<open>The loop of \<open>subprocess_wait_multi\<close>\<close>

lemma handles_of_sleep: "handles_of (sleep w) procs = handles_of w procs"
  by (simp add: handles_of_def sleep_lists split: option.splits)

lemma wait_multi_sweep_lists: "lists (snd (wait_multi_sweep procs1 procs2 w)) = lists w"
  using wait_multi_sweep_cases [of w procs1 procs2] by (auto simp: polls_lists)


text \<open>A call that returns does so from a cycle in which a handle was found.\<close>

lemma wait_multi_loop_cycle:
  assumes "wait_multi_loop procs1 procs2 w = Some y"
  shows "\<exists>w0. lists w0 = lists w \<and> wait_multi_sweep procs1 procs2 w0 = (Some (fst y), snd y)"
proof (rule wait_multi_loop.raw_induct
    [where P = "\<lambda>procs1 procs2 w y.
       \<exists>w0. lists w0 = lists w \<and> wait_multi_sweep procs1 procs2 w0 = (Some (fst y), snd y)",
      OF _ assms])
  fix loop :: "lref option \<Rightarrow> lref option \<Rightarrow> world \<Rightarrow>
      ((lref \<times> nat \<times> int option) \<times> world) option"
  fix procs1 procs2 w y
  assume IH: "\<And>procs1 procs2 w y. loop procs1 procs2 w = Some y \<Longrightarrow>
      \<exists>w0. lists w0 = lists w \<and> wait_multi_sweep procs1 procs2 w0 = (Some (fst y), snd y)"
  assume step: "(case wait_multi_sweep procs1 procs2 w of
        (None, w') \<Rightarrow> loop procs1 procs2 (sleep w') | (Some res, w') \<Rightarrow> Some (res, w')) = Some y"
  obtain res w1 where s: "wait_multi_sweep procs1 procs2 w = (res, w1)"
    by (cases "wait_multi_sweep procs1 procs2 w")
  have l: "lists w1 = lists w" using wait_multi_sweep_lists [of procs1 procs2 w] s by simp
  show "\<exists>w0. lists w0 = lists w \<and> wait_multi_sweep procs1 procs2 w0 = (Some (fst y), snd y)"
  proof (cases res)
    case None
    with step s have "loop procs1 procs2 (sleep w1) = Some y" by simp
    from IH [OF this] show ?thesis using l by (simp add: sleep_lists)
  next
    case (Some a)
    with step s have "y = (a, w1)" by simp
    with s Some show ?thesis by auto
  qed
qed

lemma wait_multi_loop_stalls:
  assumes "\<forall>h\<in>set (handles_of w procs1 @ handles_of w procs2). final_status w h \<noteq> Some 0"
  shows "wait_multi_loop procs1 procs2 w = None"
proof (rule ccontr)
  assume "wait_multi_loop procs1 procs2 w \<noteq> None"
  then obtain y where y: "wait_multi_loop procs1 procs2 w = Some y" by auto
  have "\<not> (\<forall>h\<in>set (handles_of w procs1 @ handles_of w procs2). final_status w h \<noteq> Some 0)"
  proof (rule wait_multi_loop.raw_induct
      [where P = "\<lambda>procs1 procs2 w y.
         \<not> (\<forall>h\<in>set (handles_of w procs1 @ handles_of w procs2). final_status w h \<noteq> Some 0)",
        OF _ y])
    fix loop :: "lref option \<Rightarrow> lref option \<Rightarrow> world \<Rightarrow>
        ((lref \<times> nat \<times> int option) \<times> world) option"
    fix procs1 procs2 w y
    let ?hs = "handles_of w procs1 @ handles_of w procs2"
    assume IH: "\<And>procs1 procs2 w y. loop procs1 procs2 w = Some y \<Longrightarrow>
        \<not> (\<forall>h\<in>set (handles_of w procs1 @ handles_of w procs2). final_status w h \<noteq> Some 0)"
    assume step: "(case wait_multi_sweep procs1 procs2 w of
          (None, w') \<Rightarrow> loop procs1 procs2 (sleep w') | (Some res, w') \<Rightarrow> Some (res, w')) = Some y"
    show "\<not> (\<forall>h\<in>set ?hs. final_status w h \<noteq> Some 0)"
    proof
      assume a: "\<forall>h\<in>set ?hs. final_status w h \<noteq> Some 0"
      have n: "\<forall>k<length ?hs. query w ?hs k \<noteq> Some 0"
      proof (intro allI impI)
        fix k assume k: "k < length ?hs"
        show "query w ?hs k \<noteq> Some 0"
        proof
          assume "query w ?hs k = Some 0"
          then have "final_status w (?hs ! k) = Some 0" by (rule query_final)
          moreover have "?hs ! k \<in> set ?hs" using k by (rule nth_mem)
          ultimately show False using a by blast
        qed
      qed
      with wait_multi_sweep_cases [of w procs1 procs2]
      have "wait_multi_sweep procs1 procs2 w = (None, polls w ?hs)" by blast
      with step have "loop procs1 procs2 (sleep (polls w ?hs)) = Some y" by simp
      from IH [OF this] a show False
        by (simp add: sleep_final_status polls_final_status handles_of_sleep handles_of_polls)
    qed
  qed
  with assms show False by simp
qed

subsection \<open>What \<open>subprocess_wait_all\<close> records\<close>

lemma wait_all_sweep_records:
  assumes "length rcodes = length procs"
    and "\<forall>i<length procs. rcodes ! i \<noteq> None \<longrightarrow> returncode w (procs ! i) = rcodes ! i"
    and "\<forall>j\<in>set js. j < length procs"
  shows "\<forall>i<length procs. snd (wait_all_sweep procs js w rcodes) ! i \<noteq> None \<longrightarrow>
           returncode (fst (wait_all_sweep procs js w rcodes)) (procs ! i) =
           snd (wait_all_sweep procs js w rcodes) ! i"
proof -
  let ?I = "\<lambda>(w' :: world) (rc :: int option list). length rc = length procs \<and>
      (\<forall>i<length procs. rc ! i \<noteq> None \<longrightarrow> returncode w' (procs ! i) = rc ! i)"
  have "?I (fst (wait_all_sweep procs js w rcodes)) (snd (wait_all_sweep procs js w rcodes))"
  proof (rule wait_all_sweep_inv [where I = ?I])
    show "?I w rcodes" using assms by simp
  next
    fix j and w' :: world and rc :: "int option list"
    assume a: "?I w' rc"
    show "?I (snd (poll w' (procs ! j))) rc"
    proof (intro conjI allI impI)
      show "length rc = length procs" using a by simp
    next
      fix i assume i: "i < length procs" "rc ! i \<noteq> None"
      then obtain c where c: "rc ! i = Some c" by auto
      then have "returncode w' (procs ! i) = Some c" using a i by simp
      then show "returncode (snd (poll w' (procs ! j))) (procs ! i) = rc ! i"
        using c by (simp add: poll_returncode_keeps)
    qed
  next
    fix j and w' :: world and rc :: "int option list"
    assume j: "j \<in> set js" and a: "?I w' rc" and z: "fst (poll w' (procs ! j)) = Some 0"
    have jl: "j < length rc" using j assms(3) a by simp
    show "?I (snd (poll w' (procs ! j))) (rc[j := Some 0])"
    proof (intro conjI allI impI)
      show "length (rc[j := Some 0]) = length procs" using a by simp
    next
      fix i assume i: "i < length procs" "rc[j := Some 0] ! i \<noteq> None"
      show "returncode (snd (poll w' (procs ! j))) (procs ! i) = rc[j := Some 0] ! i"
      proof (cases "i = j")
        case True
        then show ?thesis using jl z by (simp add: poll_returncode_self)
      next
        case False
        then have n: "rc ! i \<noteq> None" using i(2) by simp
        then obtain c where c: "rc ! i = Some c" by auto
        then have "returncode w' (procs ! i) = Some c" using a i(1) by simp
        then show ?thesis using c False by (simp add: poll_returncode_keeps)
      qed
    qed
  qed
  then show ?thesis by simp
qed

lemma wait_all_loop_records:
  assumes "wait_all_loop procs w rcodes = Some y"
  shows "length rcodes = length procs \<and>
         (\<forall>i<length procs. rcodes ! i \<noteq> None \<longrightarrow> returncode w (procs ! i) = rcodes ! i) \<longrightarrow>
         map (returncode (snd y)) procs = fst y"
proof (rule wait_all_loop.raw_induct
    [where P = "\<lambda>procs w rcodes y. length rcodes = length procs \<and>
         (\<forall>i<length procs. rcodes ! i \<noteq> None \<longrightarrow> returncode w (procs ! i) = rcodes ! i) \<longrightarrow>
         map (returncode (snd y)) procs = fst y",
      OF _ assms])
  fix loop :: "handle list \<Rightarrow> world \<Rightarrow> int option list \<Rightarrow> (int option list \<times> world) option"
  fix procs w rcodes y
  assume IH: "\<And>procs w rcodes y. loop procs w rcodes = Some y \<Longrightarrow>
      length rcodes = length procs \<and>
         (\<forall>i<length procs. rcodes ! i \<noteq> None \<longrightarrow> returncode w (procs ! i) = rcodes ! i) \<longrightarrow>
         map (returncode (snd y)) procs = fst y"
  assume step: "(case wait_all_sweep procs [0..<length procs] w rcodes of
        (w', rcodes') \<Rightarrow>
          if list_all (\<lambda>x. x \<noteq> None) rcodes' then Some (rcodes', w')
          else loop procs (sleep w') rcodes') = Some y"
  obtain w1 rc1 where s: "wait_all_sweep procs [0..<length procs] w rcodes = (w1, rc1)"
    by (cases "wait_all_sweep procs [0..<length procs] w rcodes")
  show "length rcodes = length procs \<and>
         (\<forall>i<length procs. rcodes ! i \<noteq> None \<longrightarrow> returncode w (procs ! i) = rcodes ! i) \<longrightarrow>
         map (returncode (snd y)) procs = fst y"
  proof
    assume a: "length rcodes = length procs \<and>
         (\<forall>i<length procs. rcodes ! i \<noteq> None \<longrightarrow> returncode w (procs ! i) = rcodes ! i)"
    have len: "length rc1 = length procs"
      using wait_all_sweep_length [of procs "[0..<length procs]" w rcodes] s a by simp
    have rec: "\<forall>i<length procs. rc1 ! i \<noteq> None \<longrightarrow> returncode w1 (procs ! i) = rc1 ! i"
      using wait_all_sweep_records [of rcodes procs w "[0..<length procs]"] a s by simp
    show "map (returncode (snd y)) procs = fst y"
    proof (cases "list_all (\<lambda>x. x \<noteq> None) rc1")
      case True
      with step s have y: "y = (rc1, w1)" by simp
      have "map (returncode w1) procs = rc1"
      proof (rule nth_equalityI)
        show "length (map (returncode w1) procs) = length rc1" using len by simp
      next
        fix i assume "i < length (map (returncode w1) procs)"
        then have i: "i < length procs" by simp
        then have "rc1 ! i \<noteq> None" using True len by (simp add: list_all_length)
        then show "map (returncode w1) procs ! i = rc1 ! i" using rec i by simp
      qed
      with y show ?thesis by simp
    next
      case False
      with step s have "loop procs (sleep w1) rc1 = Some y" by simp
      from IH [OF this] len rec show ?thesis by (simp add: sleep_returncode)
    qed
  qed
qed

subsection \<open>Arguments\<close>

lemma exits_nonzero_final: "exits_nonzero w h \<Longrightarrow> final_status w h \<noteq> Some 0"
  by (auto simp: exits_nonzero_def split: option.splits)

lemma handles_of_Some: "handles_of w (Some r) = lists w r"
  by (simp add: handles_of_def)

lemma none_or_empty_handles: "none_or_empty w procs \<longleftrightarrow> handles_of w procs = []"
  by (auto simp: none_or_empty_def handles_of_def split: option.splits)

subsection \<open>Exit codes other than 0\<close>

text \<open>
  C1. A handle that terminates with a nonzero exit code never satisfies the
  termination-detection condition: whenever it is queried in a sweep the query is not \<open>0\<close>.
  In \<open>subprocess_wait_all\<close> its slot stays empty through every sweep, and the call never
  returns. \<open>subprocess_wait_any\<close> and \<open>subprocess_wait_multi\<close> never return when every
  handle they are given terminates with a nonzero exit code.
\<close>

theorem nonzero_exit_never_detected:
  "(k < length hs \<and> exits_nonzero w (hs ! k) \<longrightarrow> query w hs k \<noteq> Some 0) \<and>
   (i < length rcodes \<and> rcodes ! i = None \<and> exits_nonzero w (procs ! i) \<longrightarrow>
      snd (wait_all_sweep procs js w rcodes) ! i = None) \<and>
   (i < length (lists w r) \<and> exits_nonzero w (lists w r ! i) \<longrightarrow>
      subprocess_wait_all w (Some r) = None) \<and>
   (lists w r \<noteq> [] \<and> (\<forall>h\<in>set (lists w r). exits_nonzero w h) \<longrightarrow>
      subprocess_wait_any w (Some r) = None) \<and>
   (handles_of w procs1 @ handles_of w procs2 \<noteq> [] \<and>
    (\<forall>h\<in>set (handles_of w procs1 @ handles_of w procs2). exits_nonzero w h) \<longrightarrow>
      subprocess_wait_multi w procs1 procs2 = None)"
proof (intro conjI impI)
  assume "k < length hs \<and> exits_nonzero w (hs ! k)"
  then have "final_status w (hs ! k) \<noteq> Some 0" by (simp add: exits_nonzero_final)
  then show "query w hs k \<noteq> Some 0" using query_final by blast
next
  assume "i < length rcodes \<and> rcodes ! i = None \<and> exits_nonzero w (procs ! i)"
  then show "snd (wait_all_sweep procs js w rcodes) ! i = None"
    using wait_all_sweep_stalls exits_nonzero_final by blast
next
  assume a: "i < length (lists w r) \<and> exits_nonzero w (lists w r ! i)"
  then have "\<not> none_or_empty w (Some r)" by (auto simp: none_or_empty_def)
  moreover have "wait_all_loop (lists w r) w (replicate (length (lists w r)) None) = None"
    using a by (intro wait_all_loop_stalls [of w _ i]) (simp_all add: exits_nonzero_final)
  ultimately show "subprocess_wait_all w (Some r) = None"
    by (simp add: subprocess_wait_all_def)
next
  assume a: "lists w r \<noteq> [] \<and> (\<forall>h\<in>set (lists w r). exits_nonzero w h)"
  then have "\<not> none_or_empty w (Some r)" by (auto simp: none_or_empty_def)
  moreover have "wait_any_loop (lists w r) w = None"
    using a by (intro wait_any_loop_stalls) (simp add: exits_nonzero_final)
  ultimately show "subprocess_wait_any w (Some r) = None"
    by (simp add: subprocess_wait_any_def)
next
  assume a: "handles_of w procs1 @ handles_of w procs2 \<noteq> [] \<and>
    (\<forall>h\<in>set (handles_of w procs1 @ handles_of w procs2). exits_nonzero w h)"
  then have "\<not> (none_or_empty w procs1 \<and> none_or_empty w procs2)"
    by (simp add: none_or_empty_handles)
  moreover have "wait_multi_loop procs1 procs2 w = None"
    using a by (intro wait_multi_loop_stalls) (simp add: exits_nonzero_final)
  ultimately show "subprocess_wait_multi w procs1 procs2 = None"
    by (simp add: subprocess_wait_multi_def)
qed

theorem nonzero_exit_never_detected_witness:
  "exits_nonzero wnz 40 \<and> exits_nonzero wnz 41 \<and> lists wnz 0 = [40, 41] \<and>
   query wnz [40, 41] 1 \<noteq> Some 0 \<and>
   snd (wait_all_sweep [40, 41] [0, 1] wnz [None, None]) ! 1 = None \<and>
   subprocess_wait_all wnz (Some 0) = None \<and>
   subprocess_wait_any wnz (Some 0) = None \<and>
   subprocess_wait_multi wnz (Some 0) None = None"
  using nonzero_exit_never_detected [where w = wnz and r = 0 and i = 1 and k = 1
      and hs = "[40, 41]" and rcodes = "[None, None]" and procs = "[40, 41]"
      and js = "[0, 1]" and ?procs1.0 = "Some 0" and ?procs2.0 = None]
  by (simp add: wnz_def exits_nonzero_def final_status_def handles_of_def)

subsection \<open>\<open>subprocess_wait_all\<close> on children that all succeed\<close>

text \<open>
  C2. For a non-empty collection of \<open>N\<close> handles that all terminate with exit code 0, at
  whatever ticks and in whatever order, \<open>subprocess_wait_all\<close> returns the list of \<open>N\<close>
  zeros, and the entry at position \<open>i\<close> is the attribute \<open>returncode\<close> of the handle at
  position \<open>i\<close> of the collection.
\<close>

theorem wait_all_returns_zeros:
  assumes "lists w r \<noteq> []" and "\<forall>h\<in>set (lists w r). final_status w h = Some 0"
  shows "\<exists>w'. subprocess_wait_all w (Some r) =
                 Some (Inr (replicate (length (lists w r)) (Some 0)), w') \<and>
               map (returncode w') (lists w r) = replicate (length (lists w r)) (Some 0)"
proof -
  let ?ps = "lists w r"
  let ?n = "length ?ps"
  obtain T where T: "\<forall>h\<in>set ?ps. exits_by w T h"
    using exits_by_bound [OF assms(2)] ..
  have "\<exists>w'. wait_all_loop ?ps w (replicate ?n None) = Some (replicate ?n (Some 0), w')"
    using assms(2) T by (intro wait_all_loop_returns [of _ _ T]) (simp_all add: zeros_or_none_def list_all_length)
  then obtain w' where l: "wait_all_loop ?ps w (replicate ?n None) = Some (replicate ?n (Some 0), w')" ..
  have "map (returncode w') ?ps = replicate ?n (Some 0)"
    using wait_all_loop_records [OF l] by simp
  moreover have "subprocess_wait_all w (Some r) = Some (Inr (replicate ?n (Some 0)), w')"
    using assms(1) l by (simp add: subprocess_wait_all_def none_or_empty_def)
  ultimately show ?thesis by blast
qed

theorem wait_all_returns_zeros_witness:
  "lists w3 0 = [10, 11, 12] \<and> final_status w3 10 = Some 0 \<and> final_status w3 11 = Some 0 \<and>
   final_status w3 12 = Some 0 \<and>
   map_option fst (subprocess_wait_all w3 (Some 0)) = Some (Inr [Some 0, Some 0, Some 0])"
proof -
  have l: "lists w3 0 = [10, 11, 12]" by (simp add: w3_def)
  have f: "final_status w3 10 = Some 0 \<and> final_status w3 11 = Some 0 \<and>
      final_status w3 12 = Some 0"
    by (simp add: w3_def final_status_def)
  have "\<exists>w'. subprocess_wait_all w3 (Some 0) =
                 Some (Inr (replicate (length (lists w3 0)) (Some 0)), w') \<and>
               map (returncode w') (lists w3 0) = replicate (length (lists w3 0)) (Some 0)"
    using l f by (intro wait_all_returns_zeros) simp_all
  then have "map_option fst (subprocess_wait_all w3 (Some 0)) =
      Some (Inr (replicate (length (lists w3 0)) (Some 0)))"
    by auto
  then show ?thesis using l f by (simp add: numeral_3_eq_3)
qed

subsection \<open>The index \<open>subprocess_wait_any\<close> returns\<close>



subsection \<open>The order in which \<open>subprocess_wait_multi\<close> scans\<close>



subsection \<open>The exit codes the waits return\<close>

lemma wait_all_loop_result:
  assumes "wait_all_loop procs w rcodes = Some y"
  shows "zeros_or_none rcodes \<longrightarrow>
         zeros_or_none (fst y) \<and> list_all (\<lambda>x. x \<noteq> None) (fst y) \<and>
         length (fst y) = length rcodes"
proof (rule wait_all_loop.raw_induct
    [where P = "\<lambda>procs w rcodes y. zeros_or_none rcodes \<longrightarrow>
         zeros_or_none (fst y) \<and> list_all (\<lambda>x. x \<noteq> None) (fst y) \<and>
         length (fst y) = length rcodes",
      OF _ assms])
  fix loop :: "handle list \<Rightarrow> world \<Rightarrow> int option list \<Rightarrow> (int option list \<times> world) option"
  fix procs w rcodes y
  assume IH: "\<And>procs w rcodes y. loop procs w rcodes = Some y \<Longrightarrow>
      zeros_or_none rcodes \<longrightarrow>
         zeros_or_none (fst y) \<and> list_all (\<lambda>x. x \<noteq> None) (fst y) \<and>
         length (fst y) = length rcodes"
  assume step: "(case wait_all_sweep procs [0..<length procs] w rcodes of
        (w', rcodes') \<Rightarrow>
          if list_all (\<lambda>x. x \<noteq> None) rcodes' then Some (rcodes', w')
          else loop procs (sleep w') rcodes') = Some y"
  obtain w1 rc1 where s: "wait_all_sweep procs [0..<length procs] w rcodes = (w1, rc1)"
    by (cases "wait_all_sweep procs [0..<length procs] w rcodes")
  have len: "length rc1 = length rcodes"
    using wait_all_sweep_length [of procs "[0..<length procs]" w rcodes] s by simp
  show "zeros_or_none rcodes \<longrightarrow>
         zeros_or_none (fst y) \<and> list_all (\<lambda>x. x \<noteq> None) (fst y) \<and>
         length (fst y) = length rcodes"
  proof
    assume z: "zeros_or_none rcodes"
    have z1: "zeros_or_none rc1"
      using wait_all_sweep_zeros [OF z, of procs "[0..<length procs]" w] s by simp
    show "zeros_or_none (fst y) \<and> list_all (\<lambda>x. x \<noteq> None) (fst y) \<and>
         length (fst y) = length rcodes"
    proof (cases "list_all (\<lambda>x. x \<noteq> None) rc1")
      case True
      with step s have "y = (rc1, w1)" by simp
      with True z1 len show ?thesis by simp
    next
      case False
      with step s have "loop procs (sleep w1) rc1 = Some y" by simp
      from IH [OF this] z1 len show ?thesis by simp
    qed
  qed
qed

lemma wait_multi_sweep_zero:
  assumes "wait_multi_sweep procs1 procs2 w = (Some (g, i, rc), w')"
  shows "rc = Some 0"
  using wait_multi_sweep_cases [of w procs1 procs2] assms by (auto split: if_splits)

text \<open>
  C9. Every exit code a wait returns is 0: a list \<open>subprocess_wait_all\<close> returns consists
  of as many zeros as the collection has handles, and the exit code in the tuple
  \<open>subprocess_wait_any\<close> or \<open>subprocess_wait_multi\<close> returns is 0.
\<close>

theorem wait_results_are_zero:
  "(subprocess_wait_all w procs = Some (Inr rcodes, wa) \<longrightarrow>
      rcodes = replicate (length (handles_of w procs)) (Some 0)) \<and>
   (subprocess_wait_any w procs = Some (Inr (i, rc), wb) \<longrightarrow> rc = Some 0) \<and>
   (subprocess_wait_multi w procs1 procs2 = Some (Inr (g, j, rc'), wc) \<longrightarrow> rc' = Some 0)"
proof (intro conjI impI)
  assume a: "subprocess_wait_all w procs = Some (Inr rcodes, wa)"
  then have n: "\<not> none_or_empty w procs"
    by (auto simp: subprocess_wait_all_def split: if_splits)
  let ?ps = "lists w (the procs)"
  have ps: "?ps = handles_of w procs" using n by (rule handles_of_lists)
  from a n have l: "wait_all_loop ?ps w (replicate (length ?ps) None) = Some (rcodes, wa)"
    by (auto simp: subprocess_wait_all_def Let_def)
  have "zeros_or_none (replicate (length ?ps) None)"
    by (simp add: zeros_or_none_def list_all_length)
  with wait_all_loop_result [OF l]
  have "zeros_or_none rcodes" "list_all (\<lambda>x. x \<noteq> None) rcodes" "length rcodes = length ?ps"
    by simp_all
  then show "rcodes = replicate (length (handles_of w procs)) (Some 0)"
    using zeros_all_filled [of rcodes] ps by simp
next
  assume a: "subprocess_wait_any w procs = Some (Inr (i, rc), wb)"
  then have "wait_any_loop (lists w (the procs)) w = Some ((i, rc), wb)"
    by (auto simp: subprocess_wait_any_def split: if_splits)
  from wait_any_loop_zero [OF this] show "rc = Some 0" by simp
next
  assume a: "subprocess_wait_multi w procs1 procs2 = Some (Inr (g, j, rc'), wc)"
  then have "wait_multi_loop procs1 procs2 w = Some ((g, j, rc'), wc)"
    by (auto simp: subprocess_wait_multi_def split: if_splits)
  from wait_multi_loop_cycle [OF this] obtain w0 where
    "wait_multi_sweep procs1 procs2 w0 = (Some (g, j, rc'), wc)" by auto
  then show "rc' = Some 0" by (rule wait_multi_sweep_zero)
qed

theorem wait_results_are_zero_witness:
  "subprocess_wait_all w3 (Some 0) =
     Some (Inr [Some 0, Some 0, Some 0], the (map_option snd (subprocess_wait_all w3 (Some 0)))) \<and>
   subprocess_wait_any w3 (Some 0) =
     Some (Inr (2, Some 0), the (map_option snd (subprocess_wait_any w3 (Some 0)))) \<and>
   subprocess_wait_multi w3 None (Some 0) =
     Some (Inr (0, 2, Some 0), the (map_option snd (subprocess_wait_multi w3 None (Some 0)))) \<and>
   [Some 0, Some 0, Some 0] = replicate (length (handles_of w3 (Some 0))) (Some (0 :: int))"
proof -
  have a: "map_option fst (subprocess_wait_all w3 (Some 0)) = Some (Inr [Some 0, Some 0, Some 0])"
    by (simp add: subprocess_wait_all_def none_or_empty_def w3_def wait_all_loop.simps
        poll_def sleep_def Let_def upt_rec)
  have b: "map_option fst (subprocess_wait_any w3 (Some 0)) = Some (Inr (2, Some 0))"
    by (simp add: subprocess_wait_any_def none_or_empty_def w3_def wait_any_loop.simps
        poll_def sleep_def Let_def upt_rec)
  have c: "map_option fst (subprocess_wait_multi w3 None (Some 0)) = Some (Inr (0, 2, Some 0))"
    by (simp add: subprocess_wait_multi_def wait_multi_sweep_def none_or_empty_def w3_def
        wait_multi_loop.simps poll_def sleep_def Let_def upt_rec)
  from a obtain wa where wa: "subprocess_wait_all w3 (Some 0) = Some (Inr [Some 0, Some 0, Some 0], wa)"
    by (cases "subprocess_wait_all w3 (Some 0)") auto
  from b obtain wb where wb: "subprocess_wait_any w3 (Some 0) = Some (Inr (2, Some 0), wb)"
    by (cases "subprocess_wait_any w3 (Some 0)") auto
  from c obtain wc where wc: "subprocess_wait_multi w3 None (Some 0) = Some (Inr (0, 2, Some 0), wc)"
    by (cases "subprocess_wait_multi w3 None (Some 0)") auto
  show ?thesis
    using wait_results_are_zero [where w = w3 and procs = "Some 0"
        and rcodes = "[Some 0, Some 0, Some 0]" and wa = wa and i = 2 and rc = "Some 0"
        and wb = wb and ?procs1.0 = None and ?procs2.0 = "Some 0" and g = 0 and j = 2
        and rc' = "Some 0" and wc = wc]
      wa wb wc by simp
qed

subsection \<open>The collection \<open>subprocess_wait_multi\<close> returns\<close>

lemma query_returncode:
  assumes "k < length hs" "query w hs k = Some c"
  shows "returncode (polls w (take (Suc k) hs)) (hs ! k) = Some c"
proof -
  have "polls w (take (Suc k) hs) = snd (poll (polls w (take k hs)) (hs ! k))"
    using assms(1) by (simp add: take_Suc_conv_app_nth polls_append)
  then show ?thesis using assms(2) by (simp add: poll_returncode_self query_def)
qed

lemma polls_last:
  assumes "k < length hs"
  shows "last (trace (polls w (take (Suc k) hs))) = Poll (hs ! k)"
  using assms by (simp add: polls_trace take_Suc_conv_app_nth)

lemma handles_of_nonempty: "handles_of w procs \<noteq> [] \<Longrightarrow> procs = Some (the procs)"
  by (auto simp: handles_of_def split: option.splits)

lemma handles_of_cong: "lists w0 = lists w \<Longrightarrow> handles_of w0 procs = handles_of w procs"
  by (simp add: handles_of_def split: option.splits)

text \<open>
  C10. The first component of the tuple \<open>subprocess_wait_multi\<close> returns is the collection
  itself, the reference passed as \<open>procs1\<close> or as \<open>procs2\<close>: the handle found, which
  is the last one queried and has the attribute \<open>returncode\<close> 0, is the element of that
  collection at the position returned. In the cycle the call returns from, the reference is
  \<open>procs1\<close> when the scan of the first collection finds a handle, and \<open>procs2\<close>
  otherwise.
\<close>

theorem wait_multi_returns_collection:
  assumes "subprocess_wait_multi w procs1 procs2 = Some (Inr (g, i, rc), w')"
  shows "(procs1 = Some g \<or> procs2 = Some g) \<and> i < length (lists w g) \<and>
         returncode w' (lists w g ! i) = Some 0 \<and> last (trace w') = Poll (lists w g ! i) \<and>
         (\<exists>w0. lists w0 = lists w \<and>
            wait_multi_sweep procs1 procs2 w0 = (Some (g, i, rc), w') \<and>
            (if \<exists>k<length (handles_of w procs1). query w0 (handles_of w procs1) k = Some 0
             then procs1 = Some g else procs2 = Some g))"
proof -
  let ?A = "handles_of w procs1" and ?B = "handles_of w procs2"
  have n: "\<not> (none_or_empty w procs1 \<and> none_or_empty w procs2)"
    using assms by (auto simp: subprocess_wait_multi_def)
  have "map_option (\<lambda>(res, w'). (Inr res, w')) (wait_multi_loop procs1 procs2 w) =
      Some (Inr (g, i, rc), w')"
    using assms n by (simp add: subprocess_wait_multi_def)
  then have "wait_multi_loop procs1 procs2 w = Some ((g, i, rc), w')"
    by (cases "wait_multi_loop procs1 procs2 w") auto
  from wait_multi_loop_cycle [OF this] obtain w0 where
    w0: "lists w0 = lists w" "wait_multi_sweep procs1 procs2 w0 = (Some (g, i, rc), w')"
    by auto
  have A: "handles_of w0 procs1 = ?A" and B: "handles_of w0 procs2 = ?B"
    by (rule handles_of_cong [OF w0(1)])+
  have "\<exists>k<length (?A @ ?B). query w0 (?A @ ?B) k = Some 0 \<and>
      (\<forall>j<k. query w0 (?A @ ?B) j \<noteq> Some 0) \<and>
      wait_multi_sweep procs1 procs2 w0 =
        (Some (if k < length ?A then (the procs1, k, Some 0)
               else (the procs2, k - length ?A, Some 0)),
         polls w0 (take (Suc k) (?A @ ?B)))"
  proof -
    from wait_multi_sweep_cases [of w0 procs1 procs2]
    show ?thesis unfolding A B
    proof
      assume "(\<forall>k<length (?A @ ?B). query w0 (?A @ ?B) k \<noteq> Some 0) \<and>
        wait_multi_sweep procs1 procs2 w0 = (None, polls w0 (?A @ ?B))"
      with w0(2) show ?thesis by simp
    qed
  qed
  then obtain k where k: "k < length (?A @ ?B)" "query w0 (?A @ ?B) k = Some 0"
    "\<forall>j<k. query w0 (?A @ ?B) j \<noteq> Some 0"
    and sw: "wait_multi_sweep procs1 procs2 w0 =
        (Some (if k < length ?A then (the procs1, k, Some 0)
               else (the procs2, k - length ?A, Some 0)),
         polls w0 (take (Suc k) (?A @ ?B)))"
    by blast
  have res: "(g, i, rc) = (if k < length ?A then (the procs1, k, Some 0)
               else (the procs2, k - length ?A, Some 0))"
    and w': "w' = polls w0 (take (Suc k) (?A @ ?B))"
    using sw w0(2) by simp_all
  have rc: "returncode w' ((?A @ ?B) ! k) = Some 0"
    using query_returncode [OF k(1,2)] w' by simp
  have la: "last (trace w') = Poll ((?A @ ?B) ! k)"
    using polls_last [OF k(1)] w' by simp
  show ?thesis
  proof (cases "k < length ?A")
    case True
    have g: "g = the procs1" and i: "i = k" using res True by simp_all
    have "?A \<noteq> []" using True by auto
    then have p: "procs1 = Some g" using handles_of_nonempty [of w procs1] g by simp
    then have l: "lists w g = ?A" by (simp add: handles_of_def)
    have h: "(?A @ ?B) ! k = lists w g ! i" using True l i by (simp add: nth_append)
    have "query w0 ?A k = Some 0" using True k(2) by (simp add: query_append)
    then have q: "\<exists>k<length ?A. query w0 ?A k = Some 0" using True by blast
    have e: "\<exists>w0. lists w0 = lists w \<and>
            wait_multi_sweep procs1 procs2 w0 = (Some (g, i, rc), w') \<and>
            (if \<exists>k<length ?A. query w0 ?A k = Some 0
             then procs1 = Some g else procs2 = Some g)"
      using w0 q p by (intro exI [of _ w0]) simp
    have "i < length (lists w g)" using True l i by simp
    with p rc la h e show ?thesis by simp
  next
    case False
    have g: "g = the procs2" and i: "i = k - length ?A" using res False by simp_all
    have kb: "k - length ?A < length ?B" using k(1) False by simp
    then have "?B \<noteq> []" by auto
    then have p: "procs2 = Some g" using handles_of_nonempty [of w procs2] g by simp
    then have l: "lists w g = ?B" by (simp add: handles_of_def)
    have h: "(?A @ ?B) ! k = lists w g ! i" using False l i by (simp add: nth_append)
    have q: "\<not> (\<exists>j<length ?A. query w0 ?A j = Some 0)"
    proof
      assume "\<exists>j<length ?A. query w0 ?A j = Some 0"
      then obtain j where j: "j < length ?A" "query w0 ?A j = Some 0" by blast
      then have "query w0 (?A @ ?B) j = Some 0" by (simp add: query_append)
      moreover have "j < k" using j(1) False by simp
      ultimately show False using k(3) by blast
    qed
    have e: "\<exists>w0. lists w0 = lists w \<and>
            wait_multi_sweep procs1 procs2 w0 = (Some (g, i, rc), w') \<and>
            (if \<exists>k<length ?A. query w0 ?A k = Some 0
             then procs1 = Some g else procs2 = Some g)"
    proof (intro exI [of _ w0] conjI)
      show "lists w0 = lists w" by (rule w0(1))
      show "wait_multi_sweep procs1 procs2 w0 = (Some (g, i, rc), w')" by (rule w0(2))
      show "if \<exists>k<length ?A. query w0 ?A k = Some 0
            then procs1 = Some g else procs2 = Some g"
        using p by (simp only: q if_False)
    qed
    have "i < length (lists w g)" using kb l i by simp
    with p rc la h e show ?thesis by simp
  qed
qed

theorem wait_multi_returns_collection_witness:
  "subprocess_wait_multi wm (Some 1) (Some 2) =
     Some (Inr (2, 0, Some 0), the (map_option snd (subprocess_wait_multi wm (Some 1) (Some 2)))) \<and>
   lists wm 2 = [32] \<and>
   map_option (returncode \<circ> snd) (subprocess_wait_multi wm (Some 1) (Some 2)) \<noteq> None \<and>
   returncode (the (map_option snd (subprocess_wait_multi wm (Some 1) (Some 2)))) 32 = Some 0"
proof -
  have c: "map_option fst (subprocess_wait_multi wm (Some 1) (Some 2)) = Some (Inr (2, 0, Some 0))"
    by (simp add: subprocess_wait_multi_def wait_multi_sweep_def none_or_empty_def wm_def
        wait_multi_loop.simps poll_def sleep_def Let_def upt_rec)
  then obtain wc where wc: "subprocess_wait_multi wm (Some 1) (Some 2) = Some (Inr (2, 0, Some 0), wc)"
    by (cases "subprocess_wait_multi wm (Some 1) (Some 2)") auto
  have l: "lists wm 2 = [32]" by (simp add: wm_def)
  have "returncode wc (lists wm 2 ! 0) = Some 0"
    using wait_multi_returns_collection [OF wc] by (rule conjunct1 [OF conjunct2 [OF conjunct2]])
  then show ?thesis using wc l by simp
qed

subsection \<open>Filled slots of \<open>subprocess_wait_all\<close>\<close>



















subsection \<open>The sink of \<open>subprocess_with_output\<close>\<close>

lemma try_body_devnull:
  assumes "try_body s st c sh d so = Some (r, devnull, st1)"
  shows "devnull = (if so then (case open_devnull s of Inl e \<Rightarrow> None | Inr f \<Rightarrow> Some f)
                    else None)"
  using assms
  by (auto simp: try_body_def popen_wait_def Let_def split: if_splits sum.splits option.splits)

text \<open>
  C7, as the code has it. When the body of the \<open>try\<close> never finishes, neither does the
  call. Otherwise, whatever the body did (it returned the exit code, or opening the sink,
  creating the child or waiting raised), \<open>_devnull\<close> is set exactly when output is
  suppressed and the sink was opened; the call then completes with the sink closed, the
  close being its last call into the system, and without a sink it leaves the state of the
  body. The outcome of the call is the outcome of the body when there is no sink or closing
  it does not raise; when closing raises, that exception is the outcome.
\<close>

theorem subprocess_with_output_releases:
  "(try_body s st c sh d so = None \<longrightarrow> subprocess_with_output s st c sh d so = None) \<and>
   (try_body s st c sh d so = Some (r, devnull, st1) \<longrightarrow>
      devnull = (if so then (case open_devnull s of Inl e \<Rightarrow> None | Inr f \<Rightarrow> Some f)
                 else None) \<and>
      (\<exists>r' st'. subprocess_with_output s st c sh d so = Some (r', st') \<and>
         (devnull = None \<longrightarrow> st' = st1 \<and> r' = r) \<and>
         (\<forall>f. devnull = Some f \<longrightarrow>
            f \<notin> open_files st' \<and> calls st' = calls st1 @ [Close f] \<and>
            (close s f = None \<longrightarrow> r' = r) \<and>
            (\<forall>e. close s f = Some e \<longrightarrow> r' = Inl e))))"
proof (rule conjI; rule impI)
  assume "try_body s st c sh d so = None"
  then show "subprocess_with_output s st c sh d so = None"
    by (simp add: subprocess_with_output_def)
next
  assume a: "try_body s st c sh d so = Some (r, devnull, st1)"
  have 1: "devnull = (if so then (case open_devnull s of Inl e \<Rightarrow> None | Inr f \<Rightarrow> Some f)
                 else None)"
    using a by (rule try_body_devnull)
  have 2: "\<exists>r' st'. subprocess_with_output s st c sh d so = Some (r', st') \<and>
         (devnull = None \<longrightarrow> st' = st1 \<and> r' = r) \<and>
         (\<forall>f. devnull = Some f \<longrightarrow>
            f \<notin> open_files st' \<and> calls st' = calls st1 @ [Close f] \<and>
            (close s f = None \<longrightarrow> r' = r) \<and>
            (\<forall>e. close s f = Some e \<longrightarrow> r' = Inl e))"
  proof (cases devnull)
    case None
    then show ?thesis using a by (simp add: subprocess_with_output_def)
  next
    case (Some f)
    show ?thesis
    proof (cases "close s f")
      case None
      then show ?thesis using a Some by (simp add: subprocess_with_output_def Let_def)
    next
      case (Some e)
      then show ?thesis using a \<open>devnull = Some f\<close>
        by (simp add: subprocess_with_output_def Let_def)
    qed
  qed
  from 1 2 show "devnull = (if so then (case open_devnull s of Inl e \<Rightarrow> None | Inr f \<Rightarrow> Some f)
                 else None) \<and>
      (\<exists>r' st'. subprocess_with_output s st c sh d so = Some (r', st') \<and>
         (devnull = None \<longrightarrow> st' = st1 \<and> r' = r) \<and>
         (\<forall>f. devnull = Some f \<longrightarrow>
            f \<notin> open_files st' \<and> calls st' = calls st1 @ [Close f] \<and>
            (close s f = None \<longrightarrow> r' = r) \<and>
            (\<forall>e. close s f = Some e \<longrightarrow> r' = Inl e)))"
    by (rule conjI)
qed

lemma spawn_fails_body:
  "try_body sys_spawn_fails io0 ''true'' False None True =
     Some (Inl (OSError ''spawn''), Some 3,
       \<lparr>open_files = {0, 1, 2, 3},
        calls = [OpenDevnull 3,
                 Spawn \<lparr>cmd = ''true'', shell = False, cwd = None, env = None,
                        stdin_arg = None, stdout_arg = Some (FileObj 3),
                        stderr_arg = Some STDOUT\<rparr>]\<rparr>)"
  by (auto simp add: try_body_def popen_wait_def popen_def sys_spawn_fails_def io0_def Let_def)

theorem subprocess_with_output_releases_witness:
  "try_body sys_spawn_fails io0 ''true'' False None True =
     Some (Inl (OSError ''spawn''), Some 3,
       \<lparr>open_files = {0, 1, 2, 3},
        calls = [OpenDevnull 3,
                 Spawn \<lparr>cmd = ''true'', shell = False, cwd = None, env = None,
                        stdin_arg = None, stdout_arg = Some (FileObj 3),
                        stderr_arg = Some STDOUT\<rparr>]\<rparr>) \<and>
   close sys_spawn_fails 3 = None \<and>
   map_option fst (subprocess_with_output sys_spawn_fails io0 ''true'' False None True) =
     Some (Inl (OSError ''spawn'')) \<and>
   map_option (open_files \<circ> snd)
     (subprocess_with_output sys_spawn_fails io0 ''true'' False None True) = Some {0, 1, 2}"
proof -
  have c: "close sys_spawn_fails 3 = None" by (simp add: sys_spawn_fails_def)
  have o: "map_option (open_files \<circ> snd)
     (subprocess_with_output sys_spawn_fails io0 ''true'' False None True) = Some {0, 1, 2}"
    using c by (auto simp add: subprocess_with_output_def spawn_fails_body Let_def)
  from subprocess_with_output_releases
    [where s = sys_spawn_fails and st = io0 and c = "''true''" and sh = False and d = None
      and so = True and r = "Inl (OSError ''spawn'')" and devnull = "Some 3"
      and ?st1.0 = "\<lparr>open_files = {0, 1, 2, 3},
        calls = [OpenDevnull 3,
                 Spawn \<lparr>cmd = ''true'', shell = False, cwd = None, env = None,
                        stdin_arg = None, stdout_arg = Some (FileObj 3),
                        stderr_arg = Some STDOUT\<rparr>]\<rparr>"]
    spawn_fails_body c
  have "map_option fst (subprocess_with_output sys_spawn_fails io0 ''true'' False None True) =
     Some (Inl (OSError ''spawn''))"
    by auto
  with spawn_fails_body c o show ?thesis by (intro conjI)
qed

text \<open>
  C7 as stated fails: when creating the child raises and closing the sink raises too, the
  call raises the exception of the close, not the one of the spawn.
\<close>

theorem close_error_masks_spawn_error:
  "map_option fst (try_body sys_close_fails io0 ''true'' False None True) =
     Some (Inl (OSError ''spawn'')) \<and>
   map_option fst (subprocess_with_output sys_close_fails io0 ''true'' False None True) =
     Some (Inl (OSError ''close''))"
  by (simp add: subprocess_with_output_def try_body_def popen_wait_def popen_def
      sys_close_fails_def io0_def Let_def)

subsection \<open>The streams of \<open>subprocess_nowait_pipe_stdout\<close>\<close>

text \<open>
  C8. The handle \<open>subprocess_nowait_pipe_stdout\<close> returns has the caller's end of a pipe as
  its attribute \<open>stdout\<close>, and the child's standard output is that pipe. Its standard
  error is not captured: the attribute \<open>stderr\<close> is \<open>None\<close> and the child's standard
  error is the caller's, as for the handle \<open>subprocess_nowait\<close> returns for the same
  arguments, which has no attribute \<open>stdout\<close> either.
\<close>

theorem pipe_stdout_wiring:
  "(subprocess_nowait_pipe_stdout s c sh d e = Inr p \<longrightarrow>
      p_stdout p = Some (PipeOf Stdout) \<and> child_stdout p = PipeOf Stdout \<and>
      p_stderr p = None \<and> child_stderr p = Caller Stderr) \<and>
   (subprocess_nowait_pipe_stdout s c sh d e = Inr p \<and> subprocess_nowait s' c sh d e = Inr q \<longrightarrow>
      child_stderr p = child_stderr q \<and> p_stderr p = p_stderr q \<and>
      child_stdin p = child_stdin q \<and> p_stdin p = p_stdin q \<and>
      p_stdout q = None \<and> child_stdout q = Caller Stdout)"
  by (auto simp: subprocess_nowait_pipe_stdout_def subprocess_nowait_def popen_def Popen_def
      wire_def attr_def split: option.splits)

theorem pipe_stdout_wiring_witness:
  "subprocess_nowait_pipe_stdout sys_ok ''ls'' False None None =
     Inr (Popen \<lparr>cmd = ''ls'', shell = False, cwd = None, env = None,
                 stdin_arg = None, stdout_arg = Some PIPE, stderr_arg = None\<rparr>) \<and>
   subprocess_nowait sys_ok ''ls'' False None None =
     Inr (Popen \<lparr>cmd = ''ls'', shell = False, cwd = None, env = None,
                 stdin_arg = None, stdout_arg = None, stderr_arg = None\<rparr>) \<and>
   p_stdout (Popen \<lparr>cmd = ''ls'', shell = False, cwd = None, env = None,
                 stdin_arg = None, stdout_arg = Some PIPE, stderr_arg = None\<rparr>) =
     Some (PipeOf Stdout) \<and>
   child_stderr (Popen \<lparr>cmd = ''ls'', shell = False, cwd = None, env = None,
                 stdin_arg = None, stdout_arg = Some PIPE, stderr_arg = None\<rparr>) =
     Caller Stderr"
proof -
  have a: "subprocess_nowait_pipe_stdout sys_ok ''ls'' False None None =
     Inr (Popen \<lparr>cmd = ''ls'', shell = False, cwd = None, env = None,
                 stdin_arg = None, stdout_arg = Some PIPE, stderr_arg = None\<rparr>)"
    by (simp add: subprocess_nowait_pipe_stdout_def popen_def sys_ok_def)
  have b: "subprocess_nowait sys_ok ''ls'' False None None =
     Inr (Popen \<lparr>cmd = ''ls'', shell = False, cwd = None, env = None,
                 stdin_arg = None, stdout_arg = None, stderr_arg = None\<rparr>)"
    by (simp add: subprocess_nowait_def popen_def sys_ok_def)
  from pipe_stdout_wiring [of sys_ok "''ls''" False None None _ sys_ok] a b
  show ?thesis by blast
qed

end
